theory Spec2Isabelle
  imports Complex_Main
begin

section \<open>Shared types and configuration constants (types.ts)\<close>

text \<open>
  The overlay plugin has three parts: the HTML template of one overlay window
  (template.ts), the native side that owns the overlay windows (the registry
  \<open>activeWindows\<close>, the layout pass, the IPC handlers) and the renderer-side plugin
  that filters messages and sends replies.  The definitions below follow the source
  function by function.  Screen coordinates, heights and epoch milliseconds are
  integers; the only place where a JavaScript number may be anything else is the
  height carried by a resize request, which is modelled by \<open>jsnum\<close> further down.
\<close>

definition WINDOW_WIDTH :: int where "WINDOW_WIDTH = 494"
definition WINDOW_MIN_HEIGHT :: int where "WINDOW_MIN_HEIGHT = 160"
definition WINDOW_MAX_HEIGHT :: int where "WINDOW_MAX_HEIGHT = 420"
definition WINDOW_MARGIN :: int where "WINDOW_MARGIN = 20"
definition WINDOW_SPACING :: int where "WINDOW_SPACING = 10"
definition MAX_RENDERED_MESSAGES :: nat where "MAX_RENDERED_MESSAGES = 200"
definition PRIME_TTL_MS :: int where "PRIME_TTL_MS = 60000"
definition MAX_OVERLAY_WINDOWS :: nat where "MAX_OVERLAY_WINDOWS = 5"

text \<open>\<open>NotificationData\<close>; the field \<open>id\<close> is called \<open>data_id\<close> here.\<close>

record NotificationData =
  data_id :: string
  authorId :: "string option"
  authorName :: string
  authorAvatar :: string
  content :: string
  channelId :: string
  timestamp :: int
  messageId :: "string option"

text \<open>\<open>OverlayMessage\<close>, one buffered message of an overlay.\<close>

record OverlayMessage =
  msg_id :: string
  msg_content :: string
  msg_timestamp :: int

text \<open>
  \<open>WindowState\<close>, one registry entry.  The field \<open>win\<close> is a reference to a
  \<open>BrowserWindow\<close> object: here a handle into the store of windows of the state.
\<close>

record WindowState =
  win :: nat
  st_channelId :: string
  st_authorName :: string
  st_authorAvatar :: string
  messages :: "OverlayMessage list"
  lastTimestamp :: int
  currentHeight :: int
  manualPos :: "(int \<times> int) option"

section \<open>HTML escaping (template.ts)\<close>

text \<open>
  \<open>text.replace(/c/g, r)\<close> for a single character \<open>c\<close>: every occurrence is
  replaced, left to right.  A JavaScript string is a sequence of 16-bit code units,
  a \<open>string\<close> here one of 8-bit characters; the five characters that are replaced
  are ASCII and every other unit is copied, whatever it is.
\<close>

definition replaceChar :: "char \<Rightarrow> string \<Rightarrow> string \<Rightarrow> string" where
  "replaceChar c r text = concat (map (\<lambda>x. if x = c then r else [x]) text)"

text \<open>
  \<open>escapeHtml\<close>: five replacements in the order of the source, the ampersand first.
  \<open>CHR 0x22\<close> is the double quote and \<open>CHR 0x27\<close> the single quote.
\<close>

definition escapeHtml :: "string \<Rightarrow> string" where
  "escapeHtml text =
     replaceChar (CHR 0x27) ''&#039;''
       (replaceChar (CHR 0x22) ''&quot;''
         (replaceChar (CHR ''>'') ''&gt;''
           (replaceChar (CHR ''<'') ''&lt;''
             (replaceChar (CHR ''&'') ''&amp;'' text))))"

text \<open>
  The decoder is not part of the source.  It is the reading of "unescaped" used to
  state the round trip: one pass from the left that turns each of the five entities
  back into its character and copies everything else.
\<close>

fun unescapeHtml :: "string \<Rightarrow> string" where
  "unescapeHtml [] = []"
| "unescapeHtml (c # cs) =
     (if c = CHR ''&'' \<and> take 4 cs = ''amp;'' then CHR ''&'' # unescapeHtml (drop 4 cs)
      else if c = CHR ''&'' \<and> take 3 cs = ''lt;'' then CHR ''<'' # unescapeHtml (drop 3 cs)
      else if c = CHR ''&'' \<and> take 3 cs = ''gt;'' then CHR ''>'' # unescapeHtml (drop 3 cs)
      else if c = CHR ''&'' \<and> take 5 cs = ''quot;'' then CHR 0x22 # unescapeHtml (drop 5 cs)
      else if c = CHR ''&'' \<and> take 5 cs = ''#039;'' then CHR 0x27 # unescapeHtml (drop 5 cs)
      else c # unescapeHtml cs)"

text \<open>
  Every ampersand of a string is directly followed by the rest of one of the five
  entities.
\<close>

fun ampersandsIntroduceEntities :: "string \<Rightarrow> bool" where
  "ampersandsIntroduceEntities [] = True"
| "ampersandsIntroduceEntities (c # cs) =
     ((c \<noteq> CHR ''&'' \<or> take 4 cs = ''amp;'' \<or> take 3 cs = ''lt;'' \<or> take 3 cs = ''gt;''
        \<or> take 5 cs = ''quot;'' \<or> take 5 cs = ''#039;'')
      \<and> ampersandsIntroduceEntities cs)"

text \<open>What the five replacements do to one character (used in the proofs only).\<close>

definition htmlEntity :: "char \<Rightarrow> string" where
  "htmlEntity c =
     (if c = CHR ''&'' then ''&amp;''
      else if c = CHR ''<'' then ''&lt;''
      else if c = CHR ''>'' then ''&gt;''
      else if c = CHR 0x22 then ''&quot;''
      else if c = CHR 0x27 then ''&#039;''
      else [c])"

section \<open>Decimal strings of integers\<close>

text \<open>
  \<open>BigInt.prototype.toString()\<close> and the template literal of an integral number:
  the decimal digits, with a leading minus sign for a negative value.
\<close>

fun digits :: "nat \<Rightarrow> string" where
  "digits n = (if n < 10 then [char_of (48 + n)] else digits (n div 10) @ [char_of (48 + n mod 10)])"

declare digits.simps [simp del]

definition integerToString :: "int \<Rightarrow> string" where
  "integerToString i = (if i < 0 then CHR ''-'' # digits (nat (- i)) else digits (nat i))"

text \<open>Reading a decimal string back as an integer (\<open>BigInt(s)\<close> on such a string).\<close>

definition digitsValue :: "string \<Rightarrow> nat" where
  "digitsValue cs = foldl (\<lambda>acc c. 10 * acc + (of_char c - 48)) 0 cs"

definition stringToInteger :: "string \<Rightarrow> int" where
  "stringToInteger s =
     (case s of
        [] \<Rightarrow> 0
      | c # cs \<Rightarrow> if c = CHR ''-'' then - int (digitsValue cs) else int (digitsValue (c # cs)))"

section \<open>Reply dispatch (renderer-side plugin)\<close>

text \<open>
  \<open>generateNonce\<close>: \<open>BigInt(Date.now() - 1420070400000) << 22n\<close>, printed in decimal.
  The current time \<open>Date.now()\<close> is the argument \<open>now\<close>.  Shifting a BigInt to the
  left by 22 bits is \<open>push_bit 22\<close>, also for a negative value.
\<close>

definition nonceValue :: "int \<Rightarrow> int" where
  "nonceValue now = push_bit 22 (now - 1420070400000)"

definition generateNonce :: "int \<Rightarrow> string" where
  "generateNonce now = integerToString (nonceValue now)"

text \<open>
  The host's message actions.  A call into the host changes the host's state \<open>'h\<close>
  and either returns or raises; \<open>sendMessage\<close> may also return a promise, which
  fulfils or rejects when it is awaited.  A capability the host does not offer is
  \<open>None\<close>, and so is the whole module when it was not found.

  The priming calls are guarded by \<open>typeof f === "function"\<close>, so for them a property
  that is not a function counts as absent.  \<open>sendMessage\<close> is only tested for
  truthiness before \<open>sendMessage.bind\<close> is called on it, so there the model keeps
  apart a function and a truthy value that is not one (and has no \<open>bind\<close>): calling
  \<open>bind\<close> on the latter raises a \<open>TypeError\<close>.
\<close>

datatype error = TypeError

datatype callResult = Returned | Raised

datatype sendOutcome = Throws | ReturnsValue | ReturnsPromise bool

datatype 'f property = Function 'f | NotCallable

text \<open>The arguments of one call of \<open>sendMessage\<close>.\<close>

record messageData =
  md_content :: string
  md_nonce :: string
  md_tts :: bool
  md_invalidEmojis :: "string list"
  md_validNonShortcutEmojis :: "string list"

record sendCall =
  call_channelId :: string
  call_messageData :: messageData
  call_waitForChannelReady :: "bool option"
  call_options :: "string option"

record 'h MessageActions =
  sendMessage :: "(sendCall \<Rightarrow> 'h \<Rightarrow> sendOutcome \<times> 'h) property option"
  jumpToPresent :: "(string \<Rightarrow> 'h \<Rightarrow> callResult \<times> 'h) option"
  fetchMessages :: "(string \<Rightarrow> nat \<Rightarrow> 'h \<Rightarrow> callResult \<times> 'h) option"
  fetchLocalMessages :: "(string \<Rightarrow> 'h \<Rightarrow> callResult \<times> 'h) option"
  fetchNewLocalMessages :: "(string \<Rightarrow> 'h \<Rightarrow> callResult \<times> 'h) option"

text \<open>
  \<open>if (typeof f === "function") { try { f(...) } catch { } }\<close>: the call is made when
  the capability is there, and whether it returned or raised is forgotten.
\<close>

definition bestEffort :: "('h \<Rightarrow> callResult \<times> 'h) option \<Rightarrow> 'h \<Rightarrow> 'h" where
  "bestEffort f h = (case f of None \<Rightarrow> h | Some g \<Rightarrow> snd (g h))"

text \<open>
  \<open>primeChannel\<close>, on the cache \<open>lastPrimedAt\<close> and the host state.  A channel that
  was never primed counts as primed at time 0.
\<close>

definition primeChannel ::
  "'h MessageActions option \<Rightarrow> int \<Rightarrow> string \<Rightarrow> (string \<rightharpoonup> int) \<times> 'h \<Rightarrow> (string \<rightharpoonup> int) \<times> 'h" where
  "primeChannel actions now chan = (\<lambda>(lastPrimedAt, h).
     let last = (case lastPrimedAt chan of None \<Rightarrow> 0 | Some t \<Rightarrow> t) in
     if now - last < PRIME_TTL_MS then (lastPrimedAt, h)
     else
       (lastPrimedAt(chan \<mapsto> now),
        (case actions of
           None \<Rightarrow> h
         | Some a \<Rightarrow>
             let h1 = bestEffort (map_option (\<lambda>f. f chan) (jumpToPresent a)) h;
                 h2 = bestEffort (map_option (\<lambda>f. f chan 50) (fetchMessages a)) h1;
                 h3 = bestEffort (map_option (\<lambda>f. f chan) (fetchLocalMessages a)) h2
             in bestEffort (map_option (\<lambda>f. f chan) (fetchNewLocalMessages a)) h3)))"

text \<open>
  The four calling conventions, in the order of the array \<open>attempts\<close>:
  \<open>send(channelId, messageData, true, options)\<close>, the same with \<open>false\<close>,
  \<open>send(channelId, messageData, true)\<close> and \<open>send(channelId, messageData)\<close>.
\<close>

definition attempts :: "string \<Rightarrow> string \<Rightarrow> string \<Rightarrow> sendCall list" where
  "attempts chan text nonce =
     (let messageData = \<lparr>md_content = text, md_nonce = nonce, md_tts = False,
                          md_invalidEmojis = [], md_validNonShortcutEmojis = []\<rparr> in
      [\<lparr>call_channelId = chan, call_messageData = messageData,
         call_waitForChannelReady = Some True, call_options = Some nonce\<rparr>,
       \<lparr>call_channelId = chan, call_messageData = messageData,
         call_waitForChannelReady = Some False, call_options = Some nonce\<rparr>,
       \<lparr>call_channelId = chan, call_messageData = messageData,
         call_waitForChannelReady = Some True, call_options = None\<rparr>,
       \<lparr>call_channelId = chan, call_messageData = messageData,
         call_waitForChannelReady = None, call_options = None\<rparr>])"

text \<open>
  An attempt fails when the call throws or when the promise it returned rejects
  (the \<open>await\<close> is inside the \<open>try\<close>).
\<close>

fun raisesError :: "sendOutcome \<Rightarrow> bool" where
  "raisesError Throws = True"
| "raisesError ReturnsValue = False"
| "raisesError (ReturnsPromise fulfilled) = (\<not> fulfilled)"

text \<open>
  The loop over \<open>attempts\<close>.  Besides the result and the host state it returns the
  calls it has made, each with its outcome, in the order they were made.
\<close>

fun attemptLoop ::
  "(sendCall \<Rightarrow> 'h \<Rightarrow> sendOutcome \<times> 'h) \<Rightarrow> sendCall list \<Rightarrow> 'h \<Rightarrow>
     bool \<times> 'h \<times> (sendCall \<times> sendOutcome) list" where
  "attemptLoop send [] h = (False, h, [])"
| "attemptLoop send (c # cs) h =
     (case send c h of
        (out, h') \<Rightarrow>
          if raisesError out
          then (case attemptLoop send cs h' of (ok, h'', made) \<Rightarrow> (ok, h'', (c, out) # made))
          else (True, h', [(c, out)]))"

text \<open>
  \<open>sendMessageSafe\<close>.  The clock is read twice, for the nonce (\<open>now\<close>) and in
  \<open>primeChannel\<close> (\<open>primeNow\<close>).  The result is what the promise settles to (the
  boolean it resolves to, or the error it rejects with), the cache and host state
  afterwards, and the calls of \<open>sendMessage\<close> that were made.  The only statement
  that can raise outside a \<open>try\<close> is \<open>MessageActions.sendMessage.bind(MessageActions)\<close>,
  which comes before the priming.
\<close>

definition sendMessageSafe ::
  "'h MessageActions option \<Rightarrow> int \<Rightarrow> int \<Rightarrow> string \<Rightarrow> string \<Rightarrow> (string \<rightharpoonup> int) \<times> 'h \<Rightarrow>
     (error + bool) \<times> ((string \<rightharpoonup> int) \<times> 'h) \<times> (sendCall \<times> sendOutcome) list" where
  "sendMessageSafe actions now primeNow chan text st =
     (case (case actions of None \<Rightarrow> None | Some a \<Rightarrow> sendMessage a) of
        None \<Rightarrow> (Inr False, st, [])
      | Some NotCallable \<Rightarrow> (Inl TypeError, st, [])
      | Some (Function send) \<Rightarrow>
          let nonce = generateNonce now;
              (lastPrimedAt, h) = primeChannel actions primeNow chan st;
              (ok, h', made) = attemptLoop send (attempts chan text nonce) h
          in (Inr ok, (lastPrimedAt, h'), made))"




section \<open>Height normalization (native side)\<close>

text \<open>
  A JavaScript number: a finite value, \<open>NaN\<close> or one of the two infinities.  Every
  finite double is a real number, so a statement about all \<open>Finite r\<close> covers all
  finite doubles; \<open>Math.ceil\<close>, \<open>Math.min\<close> and \<open>Math.max\<close> are exact on them.
\<close>

datatype jsnum = Finite real | NaN | PosInfinity | NegInfinity

text \<open>
  A value of type \<open>unknown\<close>: either a number (\<open>typeof h === "number"\<close>) or
  something else, of which the code only looks at its conversion \<open>Number(h)\<close>.  That
  conversion belongs to the language, not to the repository; it is the parameter
  \<open>toNumber\<close> of the functions below.  \<open>Number(h)\<close> returns a number for most values
  and raises a \<open>TypeError\<close> for some (a \<open>Symbol\<close>, an object that has neither a
  callable \<open>valueOf\<close> nor a callable \<open>toString\<close>), so \<open>toNumber\<close> returns a number or
  an error.
\<close>

datatype 'u unknown = JNumber jsnum | JOther 'u

fun isFinite :: "jsnum \<Rightarrow> bool" where
  "isFinite (Finite r) = True"
| "isFinite NaN = False"
| "isFinite PosInfinity = False"
| "isFinite NegInfinity = False"

definition clamp :: "int \<Rightarrow> int \<Rightarrow> int \<Rightarrow> int" where
  "clamp n lo hi = max lo (min hi n)"

text \<open>\<open>typeof h === "number" ? h : Number(h)\<close>\<close>

definition asNumber :: "('u \<Rightarrow> error + jsnum) \<Rightarrow> 'u unknown \<Rightarrow> error + jsnum" where
  "asNumber toNumber h = (case h of JNumber x \<Rightarrow> Inr x | JOther v \<Rightarrow> toNumber v)"

text \<open>
  \<open>normalizeRequestedHeight\<close>: an error raised by the conversion is not caught here.
  \<open>Math.ceil\<close> of a finite number is its ceiling.
\<close>

definition normalizeRequestedHeight :: "('u \<Rightarrow> error + jsnum) \<Rightarrow> 'u unknown \<Rightarrow> error + int" where
  "normalizeRequestedHeight toNumber h =
     (case asNumber toNumber h of
        Inl e \<Rightarrow> Inl e
      | Inr n \<Rightarrow>
          if \<not> isFinite n then Inr WINDOW_MIN_HEIGHT
          else (case n of
                  Finite r \<Rightarrow> Inr (clamp \<lceil>r\<rceil> WINDOW_MIN_HEIGHT WINDOW_MAX_HEIGHT)
                | _ \<Rightarrow> Inr WINDOW_MIN_HEIGHT))"

text \<open>
  Five values that are not numbers, with what \<open>Number\<close> makes of them:
  \<open>undefined\<close> and the string "tall" convert to \<open>NaN\<close>, the string "300" converts
  to 300, and for a \<open>Symbol\<close> and for the object \<open>{ valueOf: 1, toString: 2 }\<close> (which
  can be sent over the IPC channel) the conversion raises.
\<close>

datatype sampleValue = UndefinedValue | StringTall | String300 | SymbolValue | ObjectNoPrimitive

fun sampleToNumber :: "sampleValue \<Rightarrow> error + jsnum" where
  "sampleToNumber UndefinedValue = Inr NaN"
| "sampleToNumber StringTall = Inr NaN"
| "sampleToNumber String300 = Inr (Finite 300)"
| "sampleToNumber SymbolValue = Inl TypeError"
| "sampleToNumber ObjectNoPrimitive = Inl TypeError"

section \<open>The overlay registry and the windows (native side)\<close>

text \<open>
  A \<open>BrowserWindow\<close> as far as the registry uses it: whether it has been destroyed,
  its position and its size.  Showing a window, its opacity and its always-on-top
  level are not modelled; the calls that set them touch neither the registry nor a
  position or size.  \<open>win.close()\<close> is taken to destroy the window at once.
\<close>

record BrowserWindow =
  isDestroyed :: bool
  win_position :: "int \<times> int"
  win_size :: "int \<times> int"

text \<open>
  The module state: the insertion-ordered \<open>Map\<close> \<open>activeWindows\<close> as an association
  list in iteration order, \<open>lastDraggedPos\<close>, the store of all windows ever created
  (a window's handle is its index) and the work area of the primary display.
\<close>

record OverlayState =
  activeWindows :: "(string \<times> WindowState) list"
  lastDraggedPos :: "(int \<times> int) option"
  windows :: "BrowserWindow list"
  workAreaSize :: "int \<times> int"

text \<open>
  The state after the module has loaded: no overlay, no window, and the position
  \<open>loadPersistedState\<close> found in the state file, if any.
\<close>

definition initialState :: "int \<times> int \<Rightarrow> (int \<times> int) option \<Rightarrow> OverlayState" where
  "initialState workArea persisted =
     \<lparr>activeWindows = [], lastDraggedPos = persisted, windows = [], workAreaSize = workArea\<rparr>"

subsection \<open>The operations of a JavaScript Map\<close>

text \<open>
  \<open>Map.get\<close> is \<open>map_of\<close>.  \<open>Map.set\<close> keeps the place of a key that is present and
  puts a new key last; \<open>Map.delete\<close> removes the key; \<open>keys().next().value\<close> is the
  first key, or \<open>undefined\<close> for an empty map.
\<close>

fun Map_set :: "'k \<Rightarrow> 'v \<Rightarrow> ('k \<times> 'v) list \<Rightarrow> ('k \<times> 'v) list" where
  "Map_set k v [] = [(k, v)]"
| "Map_set k v (p # m) = (if fst p = k then (k, v) # m else p # Map_set k v m)"

definition Map_delete :: "'k \<Rightarrow> ('k \<times> 'v) list \<Rightarrow> ('k \<times> 'v) list" where
  "Map_delete k m = filter (\<lambda>p. fst p \<noteq> k) m"

definition firstKey :: "('k \<times> 'v) list \<Rightarrow> 'k option" where
  "firstKey m = (case m of [] \<Rightarrow> None | p # _ \<Rightarrow> Some (fst p))"

subsection \<open>Window calls\<close>

text \<open>
  \<open>win && !win.isDestroyed()\<close>.  A handle outside the store is no window.
\<close>

definition isLive :: "BrowserWindow list \<Rightarrow> nat \<Rightarrow> bool" where
  "isLive ws w = (w < length ws \<and> \<not> isDestroyed (ws ! w))"

definition setPosition :: "BrowserWindow list \<Rightarrow> nat \<Rightarrow> int \<times> int \<Rightarrow> BrowserWindow list" where
  "setPosition ws w p = (if w < length ws then ws[w := (ws ! w)\<lparr>win_position := p\<rparr>] else ws)"

definition setSize :: "BrowserWindow list \<Rightarrow> nat \<Rightarrow> int \<times> int \<Rightarrow> BrowserWindow list" where
  "setSize ws w sz = (if w < length ws then ws[w := (ws ! w)\<lparr>win_size := sz\<rparr>] else ws)"

definition closeWindow :: "BrowserWindow list \<Rightarrow> nat \<Rightarrow> BrowserWindow list" where
  "closeWindow ws w = (if w < length ws then ws[w := (ws ! w)\<lparr>isDestroyed := True\<rparr>] else ws)"

subsection \<open>Layout\<close>

definition getWindowPosition :: "int \<times> int \<Rightarrow> nat \<Rightarrow> int \<Rightarrow> int \<Rightarrow> int \<times> int" where
  "getWindowPosition workArea index winHeight stackedHeightBelow =
     (fst workArea - WINDOW_WIDTH - WINDOW_MARGIN,
      snd workArea - WINDOW_MARGIN - stackedHeightBelow - winHeight - int index * WINDOW_SPACING)"

text \<open>
  The loop of \<open>repositionWindows\<close> over the entries in iteration order, with its two
  counters.  An entry whose window is gone is passed over, an entry with a manual
  position is left where it is (\<open>continue\<close>); neither advances a counter.
\<close>

fun repositionLoop ::
  "int \<times> int \<Rightarrow> (string \<times> WindowState) list \<Rightarrow> nat \<Rightarrow> int \<Rightarrow> BrowserWindow list \<Rightarrow>
     BrowserWindow list" where
  "repositionLoop workArea [] index stackedBelow ws = ws"
| "repositionLoop workArea (p # rest) index stackedBelow ws =
     (let st = snd p in
      if isLive ws (win st) then
        (if manualPos st \<noteq> None then repositionLoop workArea rest index stackedBelow ws
         else
           repositionLoop workArea rest (index + 1) (stackedBelow + currentHeight st)
             (setPosition ws (win st)
                (getWindowPosition workArea index (currentHeight st) stackedBelow)))
      else repositionLoop workArea rest index stackedBelow ws)"

definition repositionWindows :: "OverlayState \<Rightarrow> OverlayState" where
  "repositionWindows s =
     s\<lparr>windows := repositionLoop (workAreaSize s) (activeWindows s) 0 0 (windows s)\<rparr>"

subsection \<open>Dragging\<close>

text \<open>
  \<open>updateDraggedPosition\<close>: \<open>win.getPosition()\<close> raises on a destroyed window, and
  the \<open>catch\<close> then leaves everything as it was.  The entry looked up is the one
  registered under \<open>key\<close> at the time of the event.
\<close>

definition updateDraggedPosition :: "string \<Rightarrow> nat \<Rightarrow> OverlayState \<Rightarrow> OverlayState" where
  "updateDraggedPosition key w s =
     (if isLive (windows s) w then
        (let p = win_position (windows s ! w) in
         s\<lparr>lastDraggedPos := Some p,
           activeWindows :=
             (case map_of (activeWindows s) key of
                None \<Rightarrow> activeWindows s
              | Some st \<Rightarrow> Map_set key (st\<lparr>manualPos := Some p\<rparr>) (activeWindows s))\<rparr>)
      else s)"

text \<open>
  The \<open>moved\<close> event of window \<open>w\<close>, created for \<open>key\<close>: the user has dragged the
  window to \<open>p\<close>, and the handler records where it is now.
\<close>

definition moved :: "string \<Rightarrow> nat \<Rightarrow> int \<times> int \<Rightarrow> OverlayState \<Rightarrow> OverlayState" where
  "moved key w p s =
     (if isLive (windows s) w
      then updateDraggedPosition key w (s\<lparr>windows := setPosition (windows s) w p\<rparr>)
      else s)"

subsection \<open>Closing\<close>

definition closeNotification :: "string \<Rightarrow> OverlayState \<Rightarrow> OverlayState" where
  "closeNotification ident s =
     (let ws = (case map_of (activeWindows s) ident of
                  None \<Rightarrow> windows s
                | Some st \<Rightarrow>
                    if isLive (windows s) (win st) then closeWindow (windows s) (win st)
                    else windows s)
      in repositionWindows (s\<lparr>windows := ws, activeWindows := Map_delete ident (activeWindows s)\<rparr>))"

fun closeLoop :: "(string \<times> WindowState) list \<Rightarrow> BrowserWindow list \<Rightarrow> BrowserWindow list" where
  "closeLoop [] ws = ws"
| "closeLoop (p # rest) ws =
     closeLoop rest (if isLive ws (win (snd p)) then closeWindow ws (win (snd p)) else ws)"

definition closeAll :: "OverlayState \<Rightarrow> OverlayState" where
  "closeAll s = s\<lparr>windows := closeLoop (activeWindows s) (windows s), activeWindows := []\<rparr>"

text \<open>The handlers of a window's \<open>closed\<close> and \<open>did-finish-load\<close> events.\<close>

definition onClosed :: "string \<Rightarrow> OverlayState \<Rightarrow> OverlayState" where
  "onClosed key s = repositionWindows (s\<lparr>activeWindows := Map_delete key (activeWindows s)\<rparr>)"

definition onDidFinishLoad :: "OverlayState \<Rightarrow> OverlayState" where
  "onDidFinishLoad s = repositionWindows s"

subsection \<open>Showing a notification\<close>

text \<open>
  The message built from the notification.  \<open>a || b\<close> takes \<open>b\<close> when \<open>a\<close> is
  \<open>undefined\<close>, the empty string or the number 0.  The two reads of the clock in
  one call are taken to give the same value \<open>now\<close>.
\<close>

definition overlayMessage :: "int \<Rightarrow> NotificationData \<Rightarrow> OverlayMessage" where
  "overlayMessage now data =
     \<lparr>msg_id =
        (case messageId data of
           Some m \<Rightarrow>
             if m \<noteq> [] then m
             else if data_id data \<noteq> [] then data_id data else integerToString now
         | None \<Rightarrow> if data_id data \<noteq> [] then data_id data else integerToString now),
      msg_content = content data,
      msg_timestamp = (if timestamp data \<noteq> 0 then timestamp data else now)\<rparr>"

text \<open>
  \<open>push\<close> followed by \<open>splice(0, length - MAX_RENDERED_MESSAGES)\<close> when the buffer
  has grown beyond the bound.
\<close>

definition pushMessage :: "OverlayMessage list \<Rightarrow> OverlayMessage \<Rightarrow> OverlayMessage list" where
  "pushMessage msgs msg =
     (let pushed = msgs @ [msg] in
      if length pushed > MAX_RENDERED_MESSAGES
      then drop (length pushed - MAX_RENDERED_MESSAGES) pushed
      else pushed)"

text \<open>
  \<open>if (activeWindows.size >= MAX_OVERLAY_WINDOWS) { ...; if (oldest) closeNotification(null, oldest) }\<close>.
  The test \<open>if (oldest)\<close> is a test for truthiness: it fails for \<open>undefined\<close> and
  for the empty string.
\<close>

definition limitOverlays :: "OverlayState \<Rightarrow> OverlayState" where
  "limitOverlays s =
     (if length (activeWindows s) \<ge> MAX_OVERLAY_WINDOWS then
        (case firstKey (activeWindows s) of
           None \<Rightarrow> s
         | Some oldest \<Rightarrow> if oldest \<noteq> [] then closeNotification oldest s else s)
      else s)"

text \<open>
  \<open>showNotification\<close> at time \<open>now\<close>.  \<open>liveEntry\<close> is the test
  \<open>existing?.win && !existing.win.isDestroyed()\<close>.  First branch: the conversation
  has a live window; the message is appended, the entry is deleted and set again (which makes
  it the last in iteration order) and the layout pass runs.  Otherwise a window is
  created at \<open>lastDraggedPos ?? defaultPos\<close> and registered under the key, with
  \<open>manualPos\<close> a copy of \<open>lastDraggedPos\<close>.
\<close>

definition liveEntry :: "OverlayState \<Rightarrow> string \<Rightarrow> WindowState option" where
  "liveEntry s key =
     (case map_of (activeWindows s) key of
        None \<Rightarrow> None
      | Some e \<Rightarrow> if isLive (windows s) (win e) then Some e else None)"

definition showNotification :: "int \<Rightarrow> NotificationData \<Rightarrow> OverlayState \<Rightarrow> OverlayState" where
  "showNotification now data s =
     (let key = channelId data;
          msg = overlayMessage now data
      in
      case liveEntry s key of
        Some existing \<Rightarrow>
          (let e' = existing\<lparr>messages := pushMessage (messages existing) msg,
                             lastTimestamp := msg_timestamp msg\<rparr>
           in repositionWindows
                (s\<lparr>activeWindows := Map_set key e' (Map_delete key (activeWindows s))\<rparr>))
      | None \<Rightarrow>
        (let s1 = limitOverlays s;
             defaultPos =
               getWindowPosition (workAreaSize s1) (length (activeWindows s1)) WINDOW_MIN_HEIGHT 0;
             pos = (case lastDraggedPos s1 of None \<Rightarrow> defaultPos | Some p \<Rightarrow> p);
             initialHeight = WINDOW_MIN_HEIGHT;
             w = length (windows s1);
             created = \<lparr>isDestroyed = False, win_position = pos,
                        win_size = (WINDOW_WIDTH, initialHeight)\<rparr>
         in s1\<lparr>windows := windows s1 @ [created],
               activeWindows :=
                 Map_set key
                   \<lparr>win = w, st_channelId = key, st_authorName = authorName data,
                     st_authorAvatar = authorAvatar data, messages = [msg],
                     lastTimestamp = msg_timestamp msg, currentHeight = initialHeight,
                     manualPos = lastDraggedPos s1\<rparr>
                   (activeWindows s1)\<rparr>))"

subsection \<open>Resizing\<close>

text \<open>
  The handler of \<open>DMOVERLAY_RESIZE\<close>.  \<open>payload?.id\<close> is \<open>undefined\<close> when there is no
  payload, and \<open>key ? activeWindows.get(key) : undefined\<close> looks nothing up for an
  \<open>undefined\<close> or empty key.  The body of the handler is inside a \<open>try\<close> with an
  empty \<open>catch\<close>: when the normalization raises, nothing has been changed yet and
  nothing is.
\<close>

record 'u ResizePayload =
  payload_id :: string
  payload_height :: "'u unknown"

definition onResize ::
  "('u \<Rightarrow> error + jsnum) \<Rightarrow> 'u ResizePayload option \<Rightarrow> OverlayState \<Rightarrow> OverlayState" where
  "onResize toNumber payload s =
     (case payload of
        None \<Rightarrow> s
      | Some p \<Rightarrow>
          (let key = payload_id p in
           case (if key \<noteq> [] then map_of (activeWindows s) key else None) of
             None \<Rightarrow> s
           | Some st \<Rightarrow>
               if \<not> isLive (windows s) (win st) then s
               else
                 (case normalizeRequestedHeight toNumber (payload_height p) of
                    Inl e \<Rightarrow> s
                  | Inr h \<Rightarrow>
                      if currentHeight st = h then s
                      else
                        repositionWindows
                          (s\<lparr>activeWindows :=
                               Map_set key (st\<lparr>currentHeight := h\<rparr>) (activeWindows s),
                             windows := setSize (windows s) (win st) (WINDOW_WIDTH, h)\<rparr>))))"

text \<open>
  The messages buffered for a conversation: those of its entry when it has one with
  a live window, none otherwise (the next notification then starts a new buffer).
\<close>

definition buffer :: "OverlayState \<Rightarrow> string \<Rightarrow> OverlayMessage list" where
  "buffer s key = (case liveEntry s key of None \<Rightarrow> [] | Some e \<Rightarrow> messages e)"

text \<open>A run of \<open>showNotification\<close> calls, each at its own time.\<close>

fun showAll :: "(int \<times> NotificationData) list \<Rightarrow> OverlayState \<Rightarrow> OverlayState" where
  "showAll [] s = s"
| "showAll (c # cs) s = showAll cs (showNotification (fst c) (snd c) s)"

subsection \<open>Events\<close>

text \<open>
  Everything that changes the module state after it has loaded: the exported
  functions \<open>showNotification\<close>, \<open>closeNotification\<close> (also the handler of
  \<open>DMOVERLAY_CLOSE\<close>) and \<open>closeAll\<close>, the handler of \<open>DMOVERLAY_RESIZE\<close>, and the
  handlers \<open>showNotification\<close> installs on each window it creates.  Those handlers
  are closures over the key and the window they were created for, which an event
  carries here; the \<open>moved\<close> event also carries the position the user has dragged
  the window to.  A \<open>closed\<close> event tells that the window has been closed, so the
  window is gone when its handler runs.
\<close>

datatype 'u event =
    ShowNotification int NotificationData
  | CloseNotification string
  | CloseAll
  | ResizeRequest "'u ResizePayload option"
  | Moved string nat "int \<times> int"
  | Closed string nat
  | DidFinishLoad

fun handleEvent :: "('u \<Rightarrow> error + jsnum) \<Rightarrow> 'u event \<Rightarrow> OverlayState \<Rightarrow> OverlayState" where
  "handleEvent toNumber (ShowNotification now d) s = showNotification now d s"
| "handleEvent toNumber (CloseNotification ident) s = closeNotification ident s"
| "handleEvent toNumber CloseAll s = closeAll s"
| "handleEvent toNumber (ResizeRequest payload) s = onResize toNumber payload s"
| "handleEvent toNumber (Moved key w p) s = moved key w p s"
| "handleEvent toNumber (Closed key w) s = onClosed key (s\<lparr>windows := closeWindow (windows s) w\<rparr>)"
| "handleEvent toNumber DidFinishLoad s = onDidFinishLoad s"

text \<open>The events of a list, handled one after the other.\<close>

fun run :: "('u \<Rightarrow> error + jsnum) \<Rightarrow> 'u event list \<Rightarrow> OverlayState \<Rightarrow> OverlayState" where
  "run toNumber [] s = s"
| "run toNumber (ev # evs) s = run toNumber evs (handleEvent toNumber ev s)"




text \<open>
  The message a notification of conversation \<open>key\<close> brings, and the messages
  notified for \<open>key\<close> by the events of a list, in their order.
\<close>

fun notified :: "string \<Rightarrow> 'u event \<Rightarrow> OverlayMessage list" where
  "notified key (ShowNotification now d) = (if channelId d = key then [overlayMessage now d] else [])"
| "notified key (CloseNotification ident) = []"
| "notified key CloseAll = []"
| "notified key (ResizeRequest payload) = []"
| "notified key (Moved k w p) = []"
| "notified key (Closed k w) = []"
| "notified key DidFinishLoad = []"

definition appended :: "string \<Rightarrow> 'u event list \<Rightarrow> OverlayMessage list" where
  "appended key evs = concat (map (notified key) evs)"

text \<open>
  The overlay of conversation \<open>key\<close> stays open during a run: after each event the
  conversation has an entry with a live window.  (Before the first event it need not
  have one: the first event may be the notification that opens the overlay.)
\<close>

fun staysOpen :: "('u \<Rightarrow> error + jsnum) \<Rightarrow> string \<Rightarrow> 'u event list \<Rightarrow> OverlayState \<Rightarrow> bool" where
  "staysOpen toNumber key [] s = True"
| "staysOpen toNumber key (ev # evs) s =
     (liveEntry (handleEvent toNumber ev s) key \<noteq> None
      \<and> staysOpen toNumber key evs (handleEvent toNumber ev s))"

subsection \<open>The layout pass as a list of position assignments\<close>

text \<open>
  A second description of the layout pass, used in the proofs: first the list of the
  calls of \<open>setPosition\<close> the loop will make, computed from the entries and from
  which windows are live, then the calls themselves.
\<close>

fun plannedPositions ::
  "int \<times> int \<Rightarrow> (string \<times> WindowState) list \<Rightarrow> nat \<Rightarrow> int \<Rightarrow> (nat \<Rightarrow> bool) \<Rightarrow>
     (nat \<times> (int \<times> int)) list" where
  "plannedPositions workArea [] index stackedBelow live = []"
| "plannedPositions workArea (p # rest) index stackedBelow live =
     (let st = snd p in
      if live (win st) \<and> manualPos st = None
      then (win st, getWindowPosition workArea index (currentHeight st) stackedBelow)
             # plannedPositions workArea rest (index + 1) (stackedBelow + currentHeight st) live
      else plannedPositions workArea rest index stackedBelow live)"

definition applyPositions ::
  "BrowserWindow list \<Rightarrow> (nat \<times> (int \<times> int)) list \<Rightarrow> BrowserWindow list" where
  "applyPositions ws as = foldl (\<lambda>ws a. setPosition ws (fst a) (snd a)) ws as"

text \<open>
  The entries of a registry that the layout pass places: those with a live window
  and no manual position.
\<close>

definition autoPlaced :: "BrowserWindow list \<Rightarrow> WindowState \<Rightarrow> bool" where
  "autoPlaced ws st = (isLive ws (win st) \<and> manualPos st = None)"

definition autoEntries ::
  "BrowserWindow list \<Rightarrow> (string \<times> WindowState) list \<Rightarrow> WindowState list" where
  "autoEntries ws es = filter (autoPlaced ws) (map snd es)"


subsection \<open>Well-formed registries\<close>

text \<open>
  What every registry built by the operations satisfies: a key occurs once, no two
  entries own the same window, and every entry's window is one of the store.
\<close>

definition wellFormed :: "OverlayState \<Rightarrow> bool" where
  "wellFormed s \<longleftrightarrow>
     distinct (map fst (activeWindows s))
     \<and> distinct (map (win \<circ> snd) (activeWindows s))
     \<and> list_all (\<lambda>p. win (snd p) < length (windows s)) (activeWindows s)"

text \<open>
  Every stored height is within the two bounds.
\<close>

definition heightsInRange :: "OverlayState \<Rightarrow> bool" where
  "heightsInRange s =
     list_all (\<lambda>p. WINDOW_MIN_HEIGHT \<le> currentHeight (snd p) \<and> currentHeight (snd p) \<le> WINDOW_MAX_HEIGHT)
       (activeWindows s)"


subsection \<open>Example runs\<close>

text \<open>
  A notification of conversation \<open>chan\<close> stamped \<open>t\<close>; then, on a 1920 by 1080 work
  area with no persisted position: conversation a and later conversation b each
  get an overlay, and the windows finish loading.  In \<open>afterDrag\<close> the user has
  then dragged the window of conversation a to (100, 200).
\<close>

definition notificationFrom :: "string \<Rightarrow> int \<Rightarrow> NotificationData" where
  "notificationFrom chan t =
     \<lparr>data_id = chan, authorId = None, authorName = ''friend'', authorAvatar = ''avatar.png'',
      content = ''hi'', channelId = chan, timestamp = t, messageId = Some ''m''\<rparr>"

definition twoOverlays :: OverlayState where
  "twoOverlays =
     onDidFinishLoad
       (showAll [(1000, notificationFrom ''a'' 1000), (2000, notificationFrom ''b'' 2000)]
          (initialState (1920, 1080) None))"

definition afterDrag :: OverlayState where
  "afterDrag = moved ''a'' 0 (100, 200) twoOverlays"


text \<open>
  \<open>twoOverlays\<close> after the overlay of conversation a has asked for height 300.
\<close>

definition tallOverlay :: OverlayState where
  "tallOverlay =
     onResize sampleToNumber (Some \<lparr>payload_id = ''a'', payload_height = JNumber (Finite 300)\<rparr>)
       twoOverlays"

text \<open>
  \<open>twoOverlays\<close> with the buffer of conversation a filled up to the bound.
\<close>

definition fullBuffer :: OverlayState where
  "fullBuffer =
     twoOverlays
       \<lparr>activeWindows :=
          Map_set ''a''
            \<lparr>win = 0, st_channelId = ''a'', st_authorName = ''friend'',
              st_authorAvatar = ''avatar.png'',
              messages = replicate 200 \<lparr>msg_id = ''m'', msg_content = ''old'', msg_timestamp = 1000\<rparr>,
              lastTimestamp = 1000, currentHeight = 160, manualPos = None\<rparr>
            (activeWindows twoOverlays)\<rparr>"

text \<open>
  Six notifications of six conversations, the first of which has the empty string as
  its \<open>channelId\<close>.
\<close>

definition emptyKeyRun :: "(int \<times> NotificationData) list" where
  "emptyKeyRun =
     [(1000, notificationFrom '''' 1000), (2000, notificationFrom ''a'' 2000),
      (3000, notificationFrom ''b'' 3000), (4000, notificationFrom ''c'' 4000),
      (5000, notificationFrom ''d'' 5000), (6000, notificationFrom ''e'' 6000)]"



text \<open>
  Two more messages for conversation a, with a message for conversation b and a
  resize request in between.
\<close>

definition interleaved :: "sampleValue event list" where
  "interleaved =
     [ShowNotification 3000 (notificationFrom ''a'' 3000),
      ShowNotification 3500 (notificationFrom ''b'' 3500),
      ResizeRequest (Some \<lparr>payload_id = ''a'', payload_height = JNumber (Finite 300)\<rparr>),
      ShowNotification 4000 (notificationFrom ''a'' 4000)]"

text \<open>
  Three messages for conversation a, then one each for the conversations b to f
  (the last of which evicts the overlay of a), then a fourth message for a.
\<close>

definition evictionRun :: "sampleValue event list" where
  "evictionRun =
     [ShowNotification 1000 (notificationFrom ''a'' 1000),
      ShowNotification 2000 (notificationFrom ''a'' 2000),
      ShowNotification 3000 (notificationFrom ''a'' 3000),
      ShowNotification 4000 (notificationFrom ''b'' 4000),
      ShowNotification 5000 (notificationFrom ''c'' 5000),
      ShowNotification 6000 (notificationFrom ''d'' 6000),
      ShowNotification 7000 (notificationFrom ''e'' 7000),
      ShowNotification 8000 (notificationFrom ''f'' 8000),
      ShowNotification 9000 (notificationFrom ''a'' 9000)]"

text \<open>
  Conversation a gets an overlay, which then asks for height 1000 and after that
  sends three heights that are not numbers: an object that has no primitive value,
  the string "300", and a \<open>Symbol\<close>.
\<close>

definition resizeRun :: "sampleValue event list" where
  "resizeRun =
     [ShowNotification 1000 (notificationFrom ''a'' 1000),
      ResizeRequest (Some \<lparr>payload_id = ''a'', payload_height = JNumber (Finite 1000)\<rparr>),
      ResizeRequest (Some \<lparr>payload_id = ''a'', payload_height = JOther ObjectNoPrimitive\<rparr>),
      ResizeRequest (Some \<lparr>payload_id = ''a'', payload_height = JOther String300\<rparr>),
      ResizeRequest (Some \<lparr>payload_id = ''a'', payload_height = JOther SymbolValue\<rparr>)]"

section \<open>Properties of the HTML escaping\<close>

lemma replaceChar_Nil: "replaceChar c r [] = []"
  by (simp add: replaceChar_def)

lemma replaceChar_Cons:
  "replaceChar c r (x # xs) = (if x = c then r else [x]) @ replaceChar c r xs"
  by (simp add: replaceChar_def)

lemma replaceChar_append:
  "replaceChar c r (xs @ ys) = replaceChar c r xs @ replaceChar c r ys"
  by (simp add: replaceChar_def)

text \<open>
  The five passes together act on each character separately: the replacement of a
  later pass never meets a character produced by an earlier one, because the
  ampersand is replaced first and no entity contains one of the other four.
\<close>

lemma escapeHtml_Nil: "escapeHtml [] = []"
  by (simp add: escapeHtml_def replaceChar_Nil)

lemma escapeHtml_Cons: "escapeHtml (c # cs) = htmlEntity c @ escapeHtml cs"
  by (simp add: escapeHtml_def htmlEntity_def replaceChar_Cons replaceChar_append replaceChar_Nil)

lemma unescapeHtml_entity: "unescapeHtml (htmlEntity c @ rest) = c # unescapeHtml rest"
  by (simp add: htmlEntity_def)

lemma unescapeHtml_escapeHtml: "unescapeHtml (escapeHtml t) = t"
  by (induction t) (simp_all add: escapeHtml_Nil escapeHtml_Cons unescapeHtml_entity)

lemma set_htmlEntity:
  "CHR ''<'' \<notin> set (htmlEntity c)" "CHR ''>'' \<notin> set (htmlEntity c)"
  "CHR 0x22 \<notin> set (htmlEntity c)" "CHR 0x27 \<notin> set (htmlEntity c)"
  by (simp_all add: htmlEntity_def)

lemma escapeHtml_no_markup:
  "CHR ''<'' \<notin> set (escapeHtml t) \<and> CHR ''>'' \<notin> set (escapeHtml t)
   \<and> CHR 0x22 \<notin> set (escapeHtml t) \<and> CHR 0x27 \<notin> set (escapeHtml t)"
  by (induction t) (simp_all add: escapeHtml_Nil escapeHtml_Cons set_htmlEntity)

lemma ampersands_entity:
  "ampersandsIntroduceEntities rest \<Longrightarrow> ampersandsIntroduceEntities (htmlEntity c @ rest)"
  by (simp add: htmlEntity_def)

lemma escapeHtml_ampersands: "ampersandsIntroduceEntities (escapeHtml t)"
  by (induction t) (simp_all add: escapeHtml_Nil escapeHtml_Cons ampersands_entity)

text \<open>
  Claim C8.  For every string \<open>t\<close>, \<open>escapeHtml t\<close> contains none of the characters
  \<open><\<close>, \<open>>\<close>, double quote and single quote; every ampersand in it starts one of the
  five entities; decoding the entities gives \<open>t\<close> back; and no other string has the
  same escaped text, so the encoding is injective.
\<close>

theorem escapeHtml_inert_and_reversible:
  "CHR ''<'' \<notin> set (escapeHtml t) \<and> CHR ''>'' \<notin> set (escapeHtml t)
   \<and> CHR 0x22 \<notin> set (escapeHtml t) \<and> CHR 0x27 \<notin> set (escapeHtml t)
   \<and> ampersandsIntroduceEntities (escapeHtml t)
   \<and> unescapeHtml (escapeHtml t) = t
   \<and> (\<forall>u. escapeHtml u = escapeHtml t \<longrightarrow> u = t)"
proof -
  have "u = t" if "escapeHtml u = escapeHtml t" for u
  proof -
    have "unescapeHtml (escapeHtml u) = unescapeHtml (escapeHtml t)"
      using that by simp
    then show ?thesis by (simp add: unescapeHtml_escapeHtml)
  qed
  then show ?thesis
    using escapeHtml_no_markup [of t] escapeHtml_ampersands [of t] unescapeHtml_escapeHtml [of t]
    by blast
qed

theorem escapeHtml_inert_and_reversible_witness:
  "escapeHtml ''<b>T&J</b>'' = ''&lt;b&gt;T&amp;J&lt;/b&gt;''
   \<and> ampersandsIntroduceEntities (escapeHtml ''<b>T&J</b>'')
   \<and> unescapeHtml (escapeHtml ''<b>T&J</b>'') = ''<b>T&J</b>''"
  using escapeHtml_inert_and_reversible [of "''<b>T&J</b>''"]
  by (simp add: escapeHtml_Cons escapeHtml_Nil htmlEntity_def)

section \<open>Properties of the reply dispatcher\<close>

lemma digitsValue_snoc: "digitsValue (cs @ [c]) = 10 * digitsValue cs + (of_char c - 48)"
  by (simp add: digitsValue_def)

lemma digitsValue_single: "digitsValue [c] = of_char c - 48"
  by (simp add: digitsValue_def)

lemma of_char_digit: "d < 10 \<Longrightarrow> (of_char (char_of (48 + d) :: char) :: nat) = 48 + d"
  by simp

lemma digitsValue_digits: "digitsValue (digits n) = n"
proof (induction n rule: digits.induct)
  case (1 n)
  show ?case
  proof (cases "n < 10")
    case True
    then show ?thesis
      by (subst digits.simps) (simp add: digitsValue_single)
  next
    case False
    then have "digitsValue (digits (n div 10)) = n div 10"
      using 1 by simp
    moreover have "(of_char (char_of (48 + n mod 10) :: char) :: nat) = 48 + n mod 10"
      by (rule of_char_digit) simp
    ultimately show ?thesis
      using False by (subst digits.simps) (simp add: digitsValue_snoc)
  qed
qed

lemma digits_chars: "c \<in> set (digits n) \<Longrightarrow> (of_char c :: nat) \<in> {48..57}"
proof (induction n rule: digits.induct)
  case (1 n)
  show ?case
  proof (cases "n < 10")
    case True
    with 1(2) show ?thesis
      by (subst (asm) digits.simps) simp
  next
    case False
    from 1(2) have "c \<in> set (digits (n div 10)) \<or> c = char_of (48 + n mod 10)"
      using False by (subst (asm) digits.simps) auto
    then show ?thesis
    proof
      assume "c \<in> set (digits (n div 10))"
      then show ?thesis using 1(1) False by simp
    next
      assume c: "c = char_of (48 + n mod 10)"
      have "(of_char (char_of (48 + n mod 10) :: char) :: nat) = 48 + n mod 10"
        by (rule of_char_digit) simp
      then show ?thesis using c by simp
    qed
  qed
qed

lemma digits_not_Nil: "digits n \<noteq> []"
  by (subst digits.simps) simp

lemma digits_head: "\<exists>c cs. digits n = c # cs \<and> c \<noteq> CHR ''-''"
proof -
  obtain c cs where eq: "digits n = c # cs"
    using digits_not_Nil [of n] by (cases "digits n") auto
  then have "c \<in> set (digits n)" by simp
  then have "(of_char c :: nat) \<in> {48..57}" by (rule digits_chars)
  then have "c \<noteq> CHR ''-''" by auto
  with eq show ?thesis by blast
qed

lemma stringToInteger_integerToString: "stringToInteger (integerToString i) = i"
proof (cases "i < 0")
  case True
  then show ?thesis
    by (simp add: stringToInteger_def integerToString_def digitsValue_digits)
next
  case False
  obtain c cs where eq: "digits (nat i) = c # cs" and c: "c \<noteq> CHR ''-''"
    using digits_head by blast
  have "digitsValue (c # cs) = nat i"
    using digitsValue_digits [of "nat i"] eq by simp
  then show ?thesis
    using False eq c by (simp add: stringToInteger_def integerToString_def)
qed

lemma nonce_reading: "stringToInteger (generateNonce now) = (now - 1420070400000) * 2 ^ 22"
  by (simp add: generateNonce_def nonceValue_def stringToInteger_integerToString push_bit_eq_mult)

text \<open>
  Claim C9, as amended.  Read as an integer, the nonce is the time since the epoch
  of 2015 shifted left by 22 bits, so a call at a later time gets a strictly greater
  nonce and a different string.  Nothing else enters the nonce: two calls at the
  same time get the same one (see the counterexample below).
\<close>

theorem generateNonce_increases_with_time:
  "t1 < t2 \<Longrightarrow>
     stringToInteger (generateNonce t1) = push_bit 22 (t1 - 1420070400000)
     \<and> stringToInteger (generateNonce t2) = push_bit 22 (t2 - 1420070400000)
     \<and> stringToInteger (generateNonce t1) < stringToInteger (generateNonce t2)
     \<and> generateNonce t1 \<noteq> generateNonce t2"
proof -
  assume lt: "t1 < t2"
  have less: "stringToInteger (generateNonce t1) < stringToInteger (generateNonce t2)"
    using lt by (simp add: nonce_reading)
  then have "generateNonce t1 \<noteq> generateNonce t2"
    by auto
  moreover have "stringToInteger (generateNonce t) = push_bit 22 (t - 1420070400000)" for t
    by (simp add: nonce_reading push_bit_eq_mult)
  ultimately show ?thesis
    using less by simp
qed


theorem generateNonce_increases_with_time_witness:
  "stringToInteger (generateNonce 1700000000000) = 1174109840998400000
   \<and> stringToInteger (generateNonce 1700000000001) = 1174109841002594304
   \<and> stringToInteger (generateNonce 1700000000000) < stringToInteger (generateNonce 1700000000001)
   \<and> generateNonce 1700000000000 \<noteq> generateNonce 1700000000001"
  using generateNonce_increases_with_time [of 1700000000000 1700000000001]
  by (simp add: push_bit_eq_mult)

text \<open>
  Two calls within the same millisecond: the nonces are equal, neither distinct nor
  increasing.
\<close>

theorem generateNonce_same_time_counterexample:
  "generateNonce 1700000000000 = generateNonce 1700000000000
   \<and> \<not> stringToInteger (generateNonce 1700000000000) < stringToInteger (generateNonce 1700000000000)
   \<and> stringToInteger (generateNonce 1700000000000) = 1174109840998400000"
  by (simp add: nonce_reading)







text \<open>
  A \<open>sendMessage\<close> that is there but is not a function: \<open>bind\<close> raises before anything
  else is done, outside every \<open>try\<close>, and the promise returned to the caller rejects.
\<close>

lemma sendMessageSafe_not_callable:
  "(case actions of None \<Rightarrow> None | Some a \<Rightarrow> sendMessage a) = Some NotCallable \<Longrightarrow>
     sendMessageSafe actions now primeNow chan text st = (Inl TypeError, st, [])"
  by (simp add: sendMessageSafe_def)






section \<open>Properties of the height normalization\<close>

lemma asNumber_simps:
  "asNumber toNumber (JNumber x) = Inr x" "asNumber toNumber (JOther v) = toNumber v"
  by (simp_all add: asNumber_def)

lemma normalizeRequestedHeight_range:
  "normalizeRequestedHeight toNumber h = Inr k \<Longrightarrow> WINDOW_MIN_HEIGHT \<le> k \<and> k \<le> WINDOW_MAX_HEIGHT"
  by (cases "asNumber toNumber h"; cases "projr (asNumber toNumber h)")
     (auto simp add: normalizeRequestedHeight_def clamp_def WINDOW_MIN_HEIGHT_def
        WINDOW_MAX_HEIGHT_def)

lemma normalizeRequestedHeight_raises:
  "normalizeRequestedHeight toNumber h = Inl e \<longleftrightarrow> asNumber toNumber h = Inl e"
  by (cases "asNumber toNumber h"; cases "projr (asNumber toNumber h)")
     (auto simp add: normalizeRequestedHeight_def)

lemma normalizeRequestedHeight_not_finite:
  "asNumber toNumber h = Inr n \<Longrightarrow> \<not> isFinite n \<Longrightarrow>
     normalizeRequestedHeight toNumber h = Inr WINDOW_MIN_HEIGHT"
  by (simp add: normalizeRequestedHeight_def)

lemma normalizeRequestedHeight_finite:
  "asNumber toNumber h = Inr (Finite r) \<Longrightarrow>
     normalizeRequestedHeight toNumber h = Inr (clamp \<lceil>r\<rceil> WINDOW_MIN_HEIGHT WINDOW_MAX_HEIGHT)"
  by (simp add: normalizeRequestedHeight_def)

lemma clamp_ceiling_low:
  "r \<le> real_of_int WINDOW_MIN_HEIGHT \<Longrightarrow> clamp \<lceil>r\<rceil> WINDOW_MIN_HEIGHT WINDOW_MAX_HEIGHT = WINDOW_MIN_HEIGHT"
proof -
  assume "r \<le> real_of_int WINDOW_MIN_HEIGHT"
  then have "\<lceil>r\<rceil> \<le> WINDOW_MIN_HEIGHT" by (simp add: ceiling_le_iff)
  then show ?thesis
    by (simp add: clamp_def WINDOW_MIN_HEIGHT_def WINDOW_MAX_HEIGHT_def)
qed

lemma clamp_ceiling_high:
  "real_of_int WINDOW_MAX_HEIGHT \<le> r \<Longrightarrow> clamp \<lceil>r\<rceil> WINDOW_MIN_HEIGHT WINDOW_MAX_HEIGHT = WINDOW_MAX_HEIGHT"
proof -
  assume "real_of_int WINDOW_MAX_HEIGHT \<le> r"
  then have "WINDOW_MAX_HEIGHT \<le> \<lceil>r\<rceil>" by (simp add: le_ceiling_iff)
  then show ?thesis
    by (simp add: clamp_def WINDOW_MIN_HEIGHT_def WINDOW_MAX_HEIGHT_def)
qed

lemma clamp_ceiling_between:
  "real_of_int WINDOW_MIN_HEIGHT \<le> r \<Longrightarrow> r \<le> real_of_int WINDOW_MAX_HEIGHT \<Longrightarrow>
     clamp \<lceil>r\<rceil> WINDOW_MIN_HEIGHT WINDOW_MAX_HEIGHT = \<lceil>r\<rceil>"
proof -
  assume "real_of_int WINDOW_MIN_HEIGHT \<le> r" and "r \<le> real_of_int WINDOW_MAX_HEIGHT"
  then have "WINDOW_MIN_HEIGHT \<le> \<lceil>r\<rceil>" and "\<lceil>r\<rceil> \<le> WINDOW_MAX_HEIGHT"
    by (simp_all add: le_ceiling_iff ceiling_le_iff)
  then show ?thesis
    by (simp add: clamp_def)
qed

section \<open>Properties of the registry\<close>

subsection \<open>Map operations\<close>

lemma map_of_Map_set: "map_of (Map_set k v m) = (map_of m)(k \<mapsto> v)"
  by (induction m) (auto simp add: fun_eq_iff)

lemma map_fst_Map_set:
  "map fst (Map_set k v m) = (if k \<in> set (map fst m) then map fst m else map fst m @ [k])"
  by (induction m) auto

lemma Map_set_absent: "k \<notin> set (map fst m) \<Longrightarrow> Map_set k v m = m @ [(k, v)]"
  by (induction m) auto

lemma length_Map_set:
  "length (Map_set k v m) = (if k \<in> set (map fst m) then length m else Suc (length m))"
  by (induction m) auto

lemma map_fst_Map_delete: "map fst (Map_delete k m) = filter (\<lambda>k'. k' \<noteq> k) (map fst m)"
  by (simp add: Map_delete_def filter_map comp_def)

lemma map_of_Map_delete: "map_of (Map_delete k m) = (map_of m)(k := None)"
  by (induction m) (auto simp add: Map_delete_def fun_eq_iff)

lemma Map_delete_absent: "k \<notin> set (map fst m) \<Longrightarrow> Map_delete k m = m"
  by (induction m) (auto simp add: Map_delete_def)

lemma Map_delete_twice: "Map_delete k (Map_delete k m) = Map_delete k m"
  by (simp add: Map_delete_def)

lemma set_Map_delete: "set (Map_delete k m) \<subseteq> set m"
  by (auto simp add: Map_delete_def)

lemma length_Map_delete: "length (Map_delete k m) \<le> length m"
  by (simp add: Map_delete_def)

lemma map_of_None_iff: "map_of m k = None \<longleftrightarrow> k \<notin> set (map fst m)"
  by (simp add: map_of_eq_None_iff)

subsection \<open>Window calls\<close>

lemma length_setPosition [simp]: "length (setPosition ws w p) = length ws"
  by (simp add: setPosition_def)

lemma isLive_setPosition [simp]: "isLive (setPosition ws w p) = isLive ws"
  by (auto simp add: setPosition_def isLive_def fun_eq_iff nth_list_update)

lemma nth_setPosition_other: "v \<noteq> w \<Longrightarrow> setPosition ws w p ! v = ws ! v"
  by (simp add: setPosition_def)

lemma nth_setPosition_same:
  "w < length ws \<Longrightarrow> setPosition ws w p ! w = (ws ! w)\<lparr>win_position := p\<rparr>"
  by (simp add: setPosition_def)

lemma setPosition_twice: "setPosition (setPosition ws w p) w q = setPosition ws w q"
  by (simp add: setPosition_def)

lemma setPosition_commute:
  "v \<noteq> w \<Longrightarrow> setPosition (setPosition ws w p) v q = setPosition (setPosition ws v q) w p"
  by (auto simp add: setPosition_def list_update_swap)

lemma setPosition_frame:
  "isDestroyed (setPosition ws w p ! v) = isDestroyed (ws ! v)
   \<and> win_size (setPosition ws w p ! v) = win_size (ws ! v)"
  by (cases "v = w") (auto simp add: setPosition_def)

subsection \<open>The layout pass\<close>

lemma applyPositions_Nil [simp]: "applyPositions ws [] = ws"
  by (simp add: applyPositions_def)

lemma applyPositions_Cons [simp]:
  "applyPositions ws (a # as) = applyPositions (setPosition ws (fst a) (snd a)) as"
  by (simp add: applyPositions_def)

lemma applyPositions_snoc:
  "applyPositions ws (as @ [a]) = setPosition (applyPositions ws as) (fst a) (snd a)"
  by (simp add: applyPositions_def)

lemma length_applyPositions [simp]: "length (applyPositions ws as) = length ws"
  by (induction as arbitrary: ws) auto

lemma isLive_applyPositions [simp]: "isLive (applyPositions ws as) = isLive ws"
  by (induction as arbitrary: ws) auto

lemma repositionLoop_planned:
  "repositionLoop wa es i sb ws = applyPositions ws (plannedPositions wa es i sb (isLive ws))"
  by (induction es arbitrary: i sb ws) (auto simp add: Let_def)

lemma applyPositions_absorb:
  "setPosition (applyPositions (setPosition Y w p) bs) w q
     = setPosition (applyPositions Y bs) w q"
proof (induction bs arbitrary: Y)
  case Nil
  show ?case by (simp add: setPosition_twice)
next
  case (Cons b bs)
  show ?case
  proof (cases "fst b = w")
    case True
    then show ?thesis by (simp add: setPosition_twice)
  next
    case False
    then have "setPosition (setPosition Y w p) (fst b) (snd b)
                 = setPosition (setPosition Y (fst b) (snd b)) w p"
      by (simp add: setPosition_commute)
    then show ?thesis
      using Cons.IH [of "setPosition Y (fst b) (snd b)"] by simp
  qed
qed

lemma applyPositions_idem: "applyPositions (applyPositions ws as) as = applyPositions ws as"
proof (induction as rule: rev_induct)
  case Nil
  show ?case by simp
next
  case (snoc a as)
  have "applyPositions (applyPositions ws (as @ [a])) (as @ [a])
          = setPosition (applyPositions (setPosition (applyPositions ws as) (fst a) (snd a)) as)
              (fst a) (snd a)"
    by (simp add: applyPositions_snoc)
  also have "\<dots> = setPosition (applyPositions (applyPositions ws as) as) (fst a) (snd a)"
    by (rule applyPositions_absorb)
  also have "\<dots> = applyPositions ws (as @ [a])"
    by (simp add: snoc.IH applyPositions_snoc)
  finally show ?case .
qed

lemma repositionLoop_idem:
  "repositionLoop wa es i sb (repositionLoop wa es i sb ws) = repositionLoop wa es i sb ws"
  by (simp add: repositionLoop_planned applyPositions_idem)

lemma length_repositionLoop [simp]: "length (repositionLoop wa es i sb ws) = length ws"
  by (simp add: repositionLoop_planned)

lemma isLive_repositionLoop [simp]: "isLive (repositionLoop wa es i sb ws) = isLive ws"
  by (simp add: repositionLoop_planned)

lemma repositionWindows_idem: "repositionWindows (repositionWindows s) = repositionWindows s"
  by (simp add: repositionWindows_def repositionLoop_idem)

lemma activeWindows_repositionWindows [simp]:
  "activeWindows (repositionWindows s) = activeWindows s"
  by (simp add: repositionWindows_def)

lemma lastDraggedPos_repositionWindows [simp]:
  "lastDraggedPos (repositionWindows s) = lastDraggedPos s"
  by (simp add: repositionWindows_def)

lemma workAreaSize_repositionWindows [simp]:
  "workAreaSize (repositionWindows s) = workAreaSize s"
  by (simp add: repositionWindows_def)

lemma length_windows_repositionWindows [simp]:
  "length (windows (repositionWindows s)) = length (windows s)"
  by (simp add: repositionWindows_def)

lemma isLive_repositionWindows [simp]:
  "isLive (windows (repositionWindows s)) = isLive (windows s)"
  by (simp add: repositionWindows_def)

subsection \<open>Closing\<close>

lemma activeWindows_closeNotification:
  "activeWindows (closeNotification ident s) = Map_delete ident (activeWindows s)"
  by (simp add: closeNotification_def Let_def)

lemma closeNotification_absent:
  assumes "map_of (activeWindows s) ident = None"
  shows "closeNotification ident s = repositionWindows s"
proof -
  have "ident \<notin> set (map fst (activeWindows s))"
    using assms by (simp add: map_of_None_iff)
  then have "Map_delete ident (activeWindows s) = activeWindows s"
    by (rule Map_delete_absent)
  then show ?thesis
    using assms by (simp add: closeNotification_def)
qed


subsection \<open>Evaluating the example runs\<close>

lemmas eval_defs =
  showNotification_def liveEntry_def limitOverlays_def overlayMessage_def pushMessage_def
  notificationFrom_def initialState_def onDidFinishLoad_def repositionWindows_def
  getWindowPosition_def isLive_def setPosition_def closeNotification_def closeWindow_def
  firstKey_def Map_delete_def
  WINDOW_WIDTH_def WINDOW_MIN_HEIGHT_def WINDOW_MAX_HEIGHT_def WINDOW_MARGIN_def
  WINDOW_SPACING_def MAX_RENDERED_MESSAGES_def MAX_OVERLAY_WINDOWS_def Let_def

lemma twoOverlays_eval:
  "twoOverlays =
     \<lparr>activeWindows =
        [(''a'', \<lparr>win = 0, st_channelId = ''a'', st_authorName = ''friend'',
                  st_authorAvatar = ''avatar.png'',
                  messages = [\<lparr>msg_id = ''m'', msg_content = ''hi'', msg_timestamp = 1000\<rparr>],
                  lastTimestamp = 1000, currentHeight = 160, manualPos = None\<rparr>),
         (''b'', \<lparr>win = 1, st_channelId = ''b'', st_authorName = ''friend'',
                  st_authorAvatar = ''avatar.png'',
                  messages = [\<lparr>msg_id = ''m'', msg_content = ''hi'', msg_timestamp = 2000\<rparr>],
                  lastTimestamp = 2000, currentHeight = 160, manualPos = None\<rparr>)],
      lastDraggedPos = None,
      windows =
        [\<lparr>isDestroyed = False, win_position = (1406, 900), win_size = (494, 160)\<rparr>,
         \<lparr>isDestroyed = False, win_position = (1406, 730), win_size = (494, 160)\<rparr>],
      workAreaSize = (1920, 1080)\<rparr>"
  by (simp add: twoOverlays_def eval_defs)

lemma afterDrag_eval:
  "afterDrag =
     \<lparr>activeWindows =
        [(''a'', \<lparr>win = 0, st_channelId = ''a'', st_authorName = ''friend'',
                  st_authorAvatar = ''avatar.png'',
                  messages = [\<lparr>msg_id = ''m'', msg_content = ''hi'', msg_timestamp = 1000\<rparr>],
                  lastTimestamp = 1000, currentHeight = 160, manualPos = Some (100, 200)\<rparr>),
         (''b'', \<lparr>win = 1, st_channelId = ''b'', st_authorName = ''friend'',
                  st_authorAvatar = ''avatar.png'',
                  messages = [\<lparr>msg_id = ''m'', msg_content = ''hi'', msg_timestamp = 2000\<rparr>],
                  lastTimestamp = 2000, currentHeight = 160, manualPos = None\<rparr>)],
      lastDraggedPos = Some (100, 200),
      windows =
        [\<lparr>isDestroyed = False, win_position = (100, 200), win_size = (494, 160)\<rparr>,
         \<lparr>isDestroyed = False, win_position = (1406, 730), win_size = (494, 160)\<rparr>],
      workAreaSize = (1920, 1080)\<rparr>"
  by (simp add: afterDrag_def twoOverlays_eval moved_def updateDraggedPosition_def isLive_def
        setPosition_def Let_def)


subsection \<open>What the layout pass does to each window\<close>

lemma autoPlaced_setPosition [simp]: "autoPlaced (setPosition ws w p) = autoPlaced ws"
  by (simp add: autoPlaced_def fun_eq_iff)

lemma autoEntries_setPosition [simp]: "autoEntries (setPosition ws w p) es = autoEntries ws es"
  by (simp add: autoEntries_def)

lemma autoEntries_Nil [simp]: "autoEntries ws [] = []"
  by (simp add: autoEntries_def)

lemma autoEntries_Cons:
  "autoEntries ws (p # es) = (if autoPlaced ws (snd p) then snd p # autoEntries ws es else autoEntries ws es)"
  by (simp add: autoEntries_def)


lemma set_autoEntries: "set (autoEntries ws es) = {st \<in> snd ` set es. autoPlaced ws st}"
  by (auto simp add: autoEntries_def)

lemma repositionLoop_Cons_auto:
  "autoPlaced ws (snd p) \<Longrightarrow>
     repositionLoop wa (p # rest) i sb ws
       = repositionLoop wa rest (i + 1) (sb + currentHeight (snd p))
           (setPosition ws (win (snd p)) (getWindowPosition wa i (currentHeight (snd p)) sb))"
  by (simp add: autoPlaced_def Let_def)

lemma repositionLoop_Cons_skip:
  "\<not> autoPlaced ws (snd p) \<Longrightarrow> repositionLoop wa (p # rest) i sb ws = repositionLoop wa rest i sb ws"
  by (auto simp add: autoPlaced_def Let_def)

lemma repositionLoop_other:
  "w \<notin> win ` set (autoEntries ws es) \<Longrightarrow> repositionLoop wa es i sb ws ! w = ws ! w"
proof (induction es arbitrary: i sb ws)
  case Nil
  show ?case by simp
next
  case (Cons p es)
  show ?case
  proof (cases "autoPlaced ws (snd p)")
    case True
    with Cons.prems have ne: "w \<noteq> win (snd p)" and rest: "w \<notin> win ` set (autoEntries ws es)"
      by (auto simp add: autoEntries_Cons)
    have "repositionLoop wa (p # es) i sb ws ! w
            = setPosition ws (win (snd p)) (getWindowPosition wa i (currentHeight (snd p)) sb) ! w"
      unfolding repositionLoop_Cons_auto [OF True] using rest by (simp add: Cons.IH)
    then show ?thesis using ne by (simp add: nth_setPosition_other)
  next
    case False
    with Cons.prems have "w \<notin> win ` set (autoEntries ws es)"
      by (simp add: autoEntries_Cons)
    then show ?thesis
      unfolding repositionLoop_Cons_skip [OF False] by (simp add: Cons.IH)
  qed
qed




lemma repositionLoop_not_auto:
  assumes d: "distinct (map (win \<circ> snd) es)" and i: "i < length es"
    and nauto: "\<not> autoPlaced ws (snd (es ! i))"
  shows "repositionLoop wa es j sb ws ! win (snd (es ! i)) = ws ! win (snd (es ! i))"
proof -
  have "win (snd (es ! i)) \<notin> win ` set (autoEntries ws es)"
  proof
    assume "win (snd (es ! i)) \<in> win ` set (autoEntries ws es)"
    then obtain st where st: "st \<in> snd ` set es" "autoPlaced ws st" "win st = win (snd (es ! i))"
      unfolding set_autoEntries by force
    then obtain k where k: "k < length es" "st = snd (es ! k)"
      by (auto simp add: in_set_conv_nth)
    have "map (win \<circ> snd) es ! k = map (win \<circ> snd) es ! i"
      using st(3) k i by simp
    moreover have "k < length (map (win \<circ> snd) es)" "i < length (map (win \<circ> snd) es)"
      using k(1) i by simp_all
    ultimately have "k = i"
      using d nth_eq_iff_index_eq [of "map (win \<circ> snd) es" k i] by blast
    with st(2) k(2) nauto show False by simp
  qed
  then show ?thesis by (rule repositionLoop_other)
qed


subsection \<open>The full layout pass\<close>




subsection \<open>More on the Map operations\<close>

lemma set_Map_set: "set (Map_set k v m) \<subseteq> insert (k, v) (set m)"
  by (induction m) auto

lemma length_Map_delete_less:
  "k \<in> set (map fst m) \<Longrightarrow> length (Map_delete k m) < length m"
proof (induction m)
  case Nil
  then show ?case by simp
next
  case (Cons p m)
  show ?case
  proof (cases "fst p = k")
    case True
    have "Map_delete k (p # m) = Map_delete k m"
      using True by (simp add: Map_delete_def)
    then show ?thesis
      using length_Map_delete [of k m] by simp
  next
    case False
    then have "k \<in> set (map fst m)" using Cons.prems by auto
    then have "length (Map_delete k m) < length m" by (rule Cons.IH)
    moreover have "Map_delete k (p # m) = p # Map_delete k m"
      using False by (simp add: Map_delete_def)
    ultimately show ?thesis by simp
  qed
qed

lemma map_of_Some_key: "map_of m k = Some v \<Longrightarrow> k \<in> set (map fst m)"
  by (metis map_of_None_iff option.distinct(1))

subsection \<open>Closing and the capacity check\<close>

lemma length_closeWindow [simp]: "length (closeWindow ws w) = length ws"
  by (simp add: closeWindow_def)

lemma frame_closeNotification [simp]:
  "length (windows (closeNotification k s)) = length (windows s)"
  "lastDraggedPos (closeNotification k s) = lastDraggedPos s"
  "workAreaSize (closeNotification k s) = workAreaSize s"
  by (simp_all add: closeNotification_def Let_def split: option.splits)

lemma activeWindows_limitOverlays:
  "activeWindows (limitOverlays s) =
     (if length (activeWindows s) \<ge> MAX_OVERLAY_WINDOWS then
        (case firstKey (activeWindows s) of
           None \<Rightarrow> activeWindows s
         | Some oldest \<Rightarrow>
             if oldest \<noteq> [] then Map_delete oldest (activeWindows s) else activeWindows s)
      else activeWindows s)"
  by (simp add: limitOverlays_def activeWindows_closeNotification split: option.splits)

lemma frame_limitOverlays [simp]:
  "length (windows (limitOverlays s)) = length (windows s)"
  "lastDraggedPos (limitOverlays s) = lastDraggedPos s"
  "workAreaSize (limitOverlays s) = workAreaSize s"
  by (simp_all add: limitOverlays_def split: option.splits)

lemma set_activeWindows_limitOverlays: "set (activeWindows (limitOverlays s)) \<subseteq> set (activeWindows s)"
  by (auto simp add: activeWindows_limitOverlays Map_delete_def split: option.splits)

subsection \<open>The two branches of showNotification\<close>

lemma showNotification_existing:
  "liveEntry s (channelId d) = Some e \<Longrightarrow>
     showNotification now d s
       = repositionWindows
           (s\<lparr>activeWindows :=
                Map_set (channelId d)
                  (e\<lparr>messages := pushMessage (messages e) (overlayMessage now d),
                     lastTimestamp := msg_timestamp (overlayMessage now d)\<rparr>)
                  (Map_delete (channelId d) (activeWindows s))\<rparr>)"
  by (simp add: showNotification_def Let_def)

lemma showNotification_new:
  "liveEntry s (channelId d) = None \<Longrightarrow>
     showNotification now d s
       = (limitOverlays s)
           \<lparr>windows :=
              windows (limitOverlays s)
                @ [\<lparr>isDestroyed = False,
                    win_position =
                      (case lastDraggedPos s of
                         None \<Rightarrow>
                           getWindowPosition (workAreaSize s)
                             (length (activeWindows (limitOverlays s))) WINDOW_MIN_HEIGHT 0
                       | Some p \<Rightarrow> p),
                    win_size = (WINDOW_WIDTH, WINDOW_MIN_HEIGHT)\<rparr>],
            activeWindows :=
              Map_set (channelId d)
                \<lparr>win = length (windows s), st_channelId = channelId d,
                  st_authorName = authorName d, st_authorAvatar = authorAvatar d,
                  messages = [overlayMessage now d],
                  lastTimestamp = msg_timestamp (overlayMessage now d),
                  currentHeight = WINDOW_MIN_HEIGHT, manualPos = lastDraggedPos s\<rparr>
                (activeWindows (limitOverlays s))\<rparr>"
  by (simp add: showNotification_def Let_def cong: option.case_cong)

lemma liveEntry_Some:
  "liveEntry s k = Some e \<longleftrightarrow> map_of (activeWindows s) k = Some e \<and> isLive (windows s) (win e)"
  by (auto simp add: liveEntry_def split: option.splits)

lemma keys_showNotification_existing:
  assumes "liveEntry s (channelId d) = Some e"
  shows "map fst (activeWindows (showNotification now d s))
           = filter (\<lambda>k. k \<noteq> channelId d) (map fst (activeWindows s)) @ [channelId d]"
  by (simp add: showNotification_existing [OF assms] map_fst_Map_set map_fst_Map_delete)

lemma keys_showNotification_new:
  assumes "liveEntry s (channelId d) = None"
  shows "map fst (activeWindows (showNotification now d s))
           = (if channelId d \<in> set (map fst (activeWindows (limitOverlays s)))
              then map fst (activeWindows (limitOverlays s))
              else map fst (activeWindows (limitOverlays s)) @ [channelId d])"
  by (simp add: showNotification_new [OF assms] map_fst_Map_set)

subsection \<open>The bound on the number of overlays, for non-empty keys\<close>

lemma showNotification_bounded:
  assumes keys: "[] \<notin> set (map fst (activeWindows s))"
    and bound: "length (activeWindows s) \<le> MAX_OVERLAY_WINDOWS"
    and key: "channelId d \<noteq> []"
  shows "length (activeWindows (showNotification now d s)) \<le> MAX_OVERLAY_WINDOWS
         \<and> [] \<notin> set (map fst (activeWindows (showNotification now d s)))"
proof (cases "liveEntry s (channelId d)")
  case (Some e)
  then have "map_of (activeWindows s) (channelId d) = Some e"
    by (simp add: liveEntry_Some)
  then have "channelId d \<in> set (map fst (activeWindows s))"
    by (rule map_of_Some_key)
  then have "length (Map_delete (channelId d) (activeWindows s)) < length (activeWindows s)"
    by (rule length_Map_delete_less)
  then have "length (activeWindows (showNotification now d s)) \<le> length (activeWindows s)"
    by (simp add: showNotification_existing [OF Some] length_Map_set map_fst_Map_delete)
  moreover have "[] \<notin> set (map fst (activeWindows (showNotification now d s)))"
    using keys key by (simp add: keys_showNotification_existing [OF Some])
  ultimately show ?thesis using bound by simp
next
  case None
  let ?lim = "activeWindows (limitOverlays s)"
  have sub: "set ?lim \<subseteq> set (activeWindows s)"
    by (rule set_activeWindows_limitOverlays)
  have room: "length ?lim < MAX_OVERLAY_WINDOWS"
  proof (cases "length (activeWindows s) \<ge> MAX_OVERLAY_WINDOWS")
    case False
    then show ?thesis by (simp add: activeWindows_limitOverlays)
  next
    case True
    then obtain p rest where eq: "activeWindows s = p # rest"
      by (cases "activeWindows s") (auto simp add: MAX_OVERLAY_WINDOWS_def)
    have ne: "fst p \<noteq> []" using keys eq by auto
    have "length (Map_delete (fst p) (activeWindows s)) < length (activeWindows s)"
      by (rule length_Map_delete_less) (simp add: eq)
    then show ?thesis
      using True bound ne by (simp add: activeWindows_limitOverlays firstKey_def eq)
  qed
  have "length (activeWindows (showNotification now d s)) \<le> Suc (length ?lim)"
    by (simp add: showNotification_new [OF None] length_Map_set)
  moreover have "[] \<notin> set (map fst (activeWindows (showNotification now d s)))"
    using keys key sub by (auto simp add: keys_showNotification_new [OF None])
  ultimately show ?thesis using room by simp
qed

lemma showAll_bounded:
  assumes "[] \<notin> set (map fst (activeWindows s))"
    and "length (activeWindows s) \<le> MAX_OVERLAY_WINDOWS"
    and "\<forall>c \<in> set cs. channelId (snd c) \<noteq> []"
  shows "length (activeWindows (showAll cs s)) \<le> MAX_OVERLAY_WINDOWS
         \<and> [] \<notin> set (map fst (activeWindows (showAll cs s)))"
  using assms
proof (induction cs arbitrary: s)
  case Nil
  then show ?case by simp
next
  case (Cons c cs)
  have "length (activeWindows (showNotification (fst c) (snd c) s)) \<le> MAX_OVERLAY_WINDOWS
        \<and> [] \<notin> set (map fst (activeWindows (showNotification (fst c) (snd c) s)))"
    using Cons.prems by (intro showNotification_bounded) auto
  then show ?case
    using Cons.IH [of "showNotification (fst c) (snd c) s"] Cons.prems by simp
qed

lemma showAll_from_start_bounded:
  "\<forall>c \<in> set cs. channelId (snd c) \<noteq> [] \<Longrightarrow>
     length (activeWindows (showAll cs (initialState workArea persisted))) \<le> MAX_OVERLAY_WINDOWS"
  using showAll_bounded [of "initialState workArea persisted" cs]
  by (simp add: initialState_def)

subsection \<open>The message buffer\<close>

lemma length_pushMessage:
  "length (pushMessage ms m) = min (Suc (length ms)) MAX_RENDERED_MESSAGES"
  by (simp add: pushMessage_def Let_def MAX_RENDERED_MESSAGES_def)

lemma pushMessage_recent:
  "pushMessage (drop (length xs - MAX_RENDERED_MESSAGES) xs) m
     = drop (length (xs @ [m]) - MAX_RENDERED_MESSAGES) (xs @ [m])"
proof (cases "length xs < 200")
  case True
  then show ?thesis
    by (simp add: pushMessage_def Let_def MAX_RENDERED_MESSAGES_def)
next
  case False
  then have "Suc (length xs - 200) = length xs - 199" by simp
  then show ?thesis
    using False by (simp add: pushMessage_def Let_def MAX_RENDERED_MESSAGES_def)
qed

lemma isLive_append_new:
  "isLive (ws @ [\<lparr>isDestroyed = False, win_position = p, win_size = sz\<rparr>]) (length ws)"
  by (simp add: isLive_def)

lemma buffer_showNotification:
  "buffer (showNotification now d s) (channelId d)
     = pushMessage (buffer s (channelId d)) (overlayMessage now d)"
proof (cases "liveEntry s (channelId d)")
  case None
  have "liveEntry (showNotification now d s) (channelId d)
          = Some \<lparr>win = length (windows s), st_channelId = channelId d,
                   st_authorName = authorName d, st_authorAvatar = authorAvatar d,
                   messages = [overlayMessage now d],
                   lastTimestamp = msg_timestamp (overlayMessage now d),
                   currentHeight = WINDOW_MIN_HEIGHT, manualPos = lastDraggedPos s\<rparr>"
    using isLive_append_new [of "windows (limitOverlays s)"]
    by (simp add: showNotification_new [OF None] liveEntry_def map_of_Map_set)
  then show ?thesis
    using None by (simp add: buffer_def pushMessage_def MAX_RENDERED_MESSAGES_def)
next
  case (Some e)
  then have live: "isLive (windows s) (win e)"
    by (simp add: liveEntry_Some)
  have "liveEntry (showNotification now d s) (channelId d)
          = Some (e\<lparr>messages := pushMessage (messages e) (overlayMessage now d),
                     lastTimestamp := msg_timestamp (overlayMessage now d)\<rparr>)"
    using live by (simp add: showNotification_existing [OF Some] liveEntry_def map_of_Map_set)
  then show ?thesis
    using Some by (simp add: buffer_def)
qed

lemma showAll_snoc: "showAll (cs @ [c]) s = showNotification (fst c) (snd c) (showAll cs s)"
  by (induction cs arbitrary: s) auto

lemma buffer_showAll:
  assumes "\<forall>c \<in> set cs. channelId (snd c) = key"
    and "length (buffer s key) \<le> MAX_RENDERED_MESSAGES"
  shows "buffer (showAll cs s) key
           = drop (length (buffer s key @ map (\<lambda>c. overlayMessage (fst c) (snd c)) cs)
                    - MAX_RENDERED_MESSAGES)
               (buffer s key @ map (\<lambda>c. overlayMessage (fst c) (snd c)) cs)"
  using assms(1)
proof (induction cs rule: rev_induct)
  case Nil
  show ?case using assms(2) by simp
next
  case (snoc c cs)
  let ?all = "buffer s key @ map (\<lambda>c. overlayMessage (fst c) (snd c)) cs"
  have key: "channelId (snd c) = key" using snoc.prems by simp
  have ih: "buffer (showAll cs s) key = drop (length ?all - MAX_RENDERED_MESSAGES) ?all"
    using snoc by simp
  have "buffer (showAll (cs @ [c]) s) key
          = pushMessage (buffer (showAll cs s) key) (overlayMessage (fst c) (snd c))"
    using buffer_showNotification [of "fst c" "snd c" "showAll cs s"] key
    by (simp add: showAll_snoc)
  also have "\<dots> = drop (length (?all @ [overlayMessage (fst c) (snd c)]) - MAX_RENDERED_MESSAGES)
                      (?all @ [overlayMessage (fst c) (snd c)])"
    unfolding ih by (rule pushMessage_recent)
  finally show ?case by simp
qed

lemma messages_bounded_insert:
  assumes sub: "set es' \<subseteq> insert (k, v) (set es)"
    and new: "length (messages v) \<le> n"
    and old: "\<forall>e \<in> set (map snd es). length (messages e) \<le> n"
  shows "\<forall>e \<in> set (map snd es'). length (messages e) \<le> n"
proof
  fix e
  assume "e \<in> set (map snd es')"
  then obtain k' where "(k', e) \<in> set es'" by auto
  then have "(k', e) = (k, v) \<or> (k', e) \<in> set es" using sub by auto
  then show "length (messages e) \<le> n"
  proof
    assume "(k', e) = (k, v)"
    then show ?thesis using new by simp
  next
    assume "(k', e) \<in> set es"
    then have "e \<in> set (map snd es)" by force
    then show ?thesis using old by blast
  qed
qed

lemma showNotification_messages_bounded:
  assumes "\<forall>e \<in> set (map snd (activeWindows s)). length (messages e) \<le> MAX_RENDERED_MESSAGES"
  shows "\<forall>e \<in> set (map snd (activeWindows (showNotification now d s))).
           length (messages e) \<le> MAX_RENDERED_MESSAGES"
proof (cases "liveEntry s (channelId d)")
  case None
  let ?new = "\<lparr>win = length (windows s), st_channelId = channelId d,
                  st_authorName = authorName d, st_authorAvatar = authorAvatar d,
                  messages = [overlayMessage now d],
                  lastTimestamp = msg_timestamp (overlayMessage now d),
                  currentHeight = WINDOW_MIN_HEIGHT, manualPos = lastDraggedPos s\<rparr>"
  have eq: "activeWindows (showNotification now d s)
          = Map_set (channelId d) ?new (activeWindows (limitOverlays s))"
    by (simp add: showNotification_new [OF None])
  have "set (Map_set (channelId d) ?new (activeWindows (limitOverlays s)))
          \<subseteq> insert (channelId d, ?new) (set (activeWindows (limitOverlays s)))"
    by (rule set_Map_set)
  also have "\<dots> \<subseteq> insert (channelId d, ?new) (set (activeWindows s))"
    by (rule insert_mono) (rule set_activeWindows_limitOverlays)
  finally have sub: "set (activeWindows (showNotification now d s))
          \<subseteq> insert (channelId d, ?new) (set (activeWindows s))"
    unfolding eq .
  have "length (messages ?new) \<le> MAX_RENDERED_MESSAGES"
    by (simp add: MAX_RENDERED_MESSAGES_def)
  from messages_bounded_insert [OF sub this assms] show ?thesis .
next
  case (Some e)
  let ?new = "e\<lparr>messages := pushMessage (messages e) (overlayMessage now d),
                   lastTimestamp := msg_timestamp (overlayMessage now d)\<rparr>"
  have eq: "activeWindows (showNotification now d s)
          = Map_set (channelId d) ?new (Map_delete (channelId d) (activeWindows s))"
    by (simp add: showNotification_existing [OF Some])
  have "set (Map_set (channelId d) ?new (Map_delete (channelId d) (activeWindows s)))
          \<subseteq> insert (channelId d, ?new) (set (Map_delete (channelId d) (activeWindows s)))"
    by (rule set_Map_set)
  also have "\<dots> \<subseteq> insert (channelId d, ?new) (set (activeWindows s))"
    by (rule insert_mono) (rule set_Map_delete)
  finally have sub: "set (activeWindows (showNotification now d s))
          \<subseteq> insert (channelId d, ?new) (set (activeWindows s))"
    unfolding eq .
  have "length (messages ?new) \<le> MAX_RENDERED_MESSAGES"
    by (simp add: length_pushMessage)
  from messages_bounded_insert [OF sub this assms] show ?thesis .
qed

lemma showAll_messages_bounded:
  assumes "\<forall>e \<in> set (map snd (activeWindows s)). length (messages e) \<le> MAX_RENDERED_MESSAGES"
  shows "\<forall>e \<in> set (map snd (activeWindows (showAll cs s))).
           length (messages e) \<le> MAX_RENDERED_MESSAGES"
  using assms
proof (induction cs arbitrary: s)
  case Nil
  then show ?case by simp
next
  case (Cons c cs)
  show ?case
    using Cons.IH [OF showNotification_messages_bounded [OF Cons.prems, of "fst c" "snd c"]]
    by simp
qed

lemma fullBuffer_buffer:
  "buffer fullBuffer ''a''
     = replicate 200 \<lparr>msg_id = ''m'', msg_content = ''old'', msg_timestamp = 1000\<rparr>"
  by (simp add: fullBuffer_def buffer_def liveEntry_def twoOverlays_eval isLive_def)

subsection \<open>Well-formed registries\<close>

lemma distinct_Map_delete:
  "distinct (map f m) \<Longrightarrow> distinct (map f (Map_delete k m))"
  by (simp add: Map_delete_def distinct_map_filter)

lemma list_all_Map_delete: "list_all P m \<Longrightarrow> list_all P (Map_delete k m)"
  by (simp add: Map_delete_def list_all_iff)

lemma map_Map_set_same:
  "map_of m k = Some v \<Longrightarrow> g v' = g v \<Longrightarrow> map (g \<circ> snd) (Map_set k v' m) = map (g \<circ> snd) m"
  by (induction m) (auto split: if_splits)

lemma list_all_Map_set:
  "list_all P m \<Longrightarrow> P (k, v) \<Longrightarrow> list_all P (Map_set k v m)"
  by (induction m) auto

lemma distinct_handles_Map_set:
  "distinct (map (win \<circ> snd) m) \<Longrightarrow> win v \<notin> set (map (win \<circ> snd) m) \<Longrightarrow>
     distinct (map (win \<circ> snd) (Map_set k v m))"
proof (induction m)
  case Nil
  then show ?case by simp
next
  case (Cons p m)
  have "set (Map_set k v m) \<subseteq> insert (k, v) (set m)"
    by (rule set_Map_set)
  then have "set (map (win \<circ> snd) (Map_set k v m)) \<subseteq> insert (win v) (set (map (win \<circ> snd) m))"
    by auto
  then have "win (snd p) \<notin> set (map (win \<circ> snd) (Map_set k v m))"
    using Cons.prems by auto
  then show ?case
    using Cons by simp
qed

lemma wellFormed_initialState: "wellFormed (initialState workArea persisted)"
  by (simp add: wellFormed_def initialState_def)

lemma wellFormed_repositionWindows [simp]: "wellFormed (repositionWindows s) = wellFormed s"
  by (simp add: wellFormed_def)

lemma wellFormed_delete:
  assumes "wellFormed s" and "length ws = length (windows s)"
  shows "wellFormed (s\<lparr>windows := ws, activeWindows := Map_delete k (activeWindows s)\<rparr>)"
  using assms by (simp add: wellFormed_def distinct_Map_delete list_all_Map_delete)

lemma wellFormed_closeNotification: "wellFormed s \<Longrightarrow> wellFormed (closeNotification k s)"
  unfolding closeNotification_def Let_def
  by (simp del: wellFormed_repositionWindows add: wellFormed_repositionWindows [THEN iffD2]
        wellFormed_delete split: option.splits)


lemma wellFormed_limitOverlays: "wellFormed s \<Longrightarrow> wellFormed (limitOverlays s)"
  by (simp add: limitOverlays_def wellFormed_closeNotification split: option.splits)

lemma handles_bounded:
  "wellFormed s \<Longrightarrow> w \<in> set (map (win \<circ> snd) (activeWindows s)) \<Longrightarrow> w < length (windows s)"
  by (auto simp add: wellFormed_def list_all_iff)

lemma wellFormed_promote:
  assumes wf: "wellFormed s" and e: "map_of (activeWindows s) k = Some e" and w: "win e' = win e"
  shows "wellFormed (s\<lparr>activeWindows := Map_set k e' (Map_delete k (activeWindows s))\<rparr>)"
proof -
  let ?m = "Map_delete k (activeWindows s)"
  have absent: "k \<notin> set (map fst ?m)"
    by (simp add: map_fst_Map_delete)
  have eq: "Map_set k e' ?m = ?m @ [(k, e')]"
    using absent by (rule Map_set_absent)
  have mem: "(k, e) \<in> set (activeWindows s)"
    using e by (rule map_of_SomeD)
  have "win e \<notin> set (map (win \<circ> snd) ?m)"
  proof
    assume "win e \<in> set (map (win \<circ> snd) ?m)"
    then obtain k' e'' where p: "(k', e'') \<in> set (activeWindows s)" "k' \<noteq> k" "win e'' = win e"
      by (auto simp add: Map_delete_def)
    have "inj_on (win \<circ> snd) (set (activeWindows s))"
      using wf by (simp add: wellFormed_def distinct_map)
    moreover have "(win \<circ> snd) (k', e'') = (win \<circ> snd) (k, e)"
      using p(3) by simp
    ultimately have "(k', e'') = (k, e)"
      using p(1) mem by (rule inj_onD)
    with p(2) show False by simp
  qed
  moreover have "win e < length (windows s)"
    using wf mem by (auto simp add: wellFormed_def list_all_iff)
  ultimately show ?thesis
    using wf absent w
    by (simp add: wellFormed_def eq distinct_Map_delete list_all_Map_delete)
qed

lemma wellFormed_showNotification: "wellFormed s \<Longrightarrow> wellFormed (showNotification now d s)"
proof (cases "liveEntry s (channelId d)")
  case (Some e)
  assume wf: "wellFormed s"
  have "map_of (activeWindows s) (channelId d) = Some e"
    using Some by (simp add: liveEntry_Some)
  then show ?thesis
    using wellFormed_promote [OF wf, of "channelId d" e]
    by (simp add: showNotification_existing [OF Some])
next
  case None
  assume "wellFormed s"
  then have wf: "wellFormed (limitOverlays s)"
    by (rule wellFormed_limitOverlays)
  let ?s1 = "limitOverlays s"
  let ?new = "\<lparr>win = length (windows s), st_channelId = channelId d,
                  st_authorName = authorName d, st_authorAvatar = authorAvatar d,
                  messages = [overlayMessage now d],
                  lastTimestamp = msg_timestamp (overlayMessage now d),
                  currentHeight = WINDOW_MIN_HEIGHT, manualPos = lastDraggedPos s\<rparr>"
  have fresh: "length (windows s) \<notin> set (map (win \<circ> snd) (activeWindows ?s1))"
    using handles_bounded [OF wf, of "length (windows s)"] by auto
  have bound: "list_all (\<lambda>p. win (snd p) < Suc (length (windows s))) (activeWindows ?s1)"
    using wf by (auto simp add: wellFormed_def list_all_iff less_Suc_eq)
  show ?thesis
  proof (cases "channelId d \<in> set (map fst (activeWindows ?s1))")
    case False
    then have "Map_set (channelId d) ?new (activeWindows ?s1) = activeWindows ?s1 @ [(channelId d, ?new)]"
      by (rule Map_set_absent)
    then show ?thesis
      using wf False fresh bound
      by (simp add: showNotification_new [OF None] wellFormed_def)
  next
    case True
    then obtain old where old: "map_of (activeWindows ?s1) (channelId d) = Some old"
      by (metis map_of_None_iff option.exhaust)
    have keys: "map fst (Map_set (channelId d) ?new (activeWindows ?s1)) = map fst (activeWindows ?s1)"
      using True by (simp add: map_fst_Map_set)
    have sub: "set (Map_set (channelId d) ?new (activeWindows ?s1))
                 \<subseteq> insert (channelId d, ?new) (set (activeWindows ?s1))"
      by (rule set_Map_set)
    have dist: "distinct (map (win \<circ> snd) (Map_set (channelId d) ?new (activeWindows ?s1)))"
      using wf fresh by (intro distinct_handles_Map_set) (simp_all add: wellFormed_def)
    show ?thesis
      using wf keys dist bound
      by (simp add: showNotification_new [OF None] wellFormed_def list_all_Map_set)
  qed
qed



lemma wellFormed_replace:
  assumes wf: "wellFormed s" and e: "map_of (activeWindows s) k = Some e" and w: "win e' = win e"
    and len: "length ws = length (windows s)"
  shows "wellFormed (s\<lparr>windows := ws, activeWindows := Map_set k e' (activeWindows s)\<rparr>)"
proof -
  have k: "k \<in> set (map fst (activeWindows s))"
    using e by (rule map_of_Some_key)
  have "(k, e) \<in> set (activeWindows s)"
    using e by (rule map_of_SomeD)
  then have "win e < length (windows s)"
    using wf by (auto simp add: wellFormed_def list_all_iff)
  then show ?thesis
    using wf k w len map_Map_set_same [OF e, of win e']
    by (simp add: wellFormed_def map_fst_Map_set list_all_Map_set)
qed

lemma wellFormed_moved: "wellFormed s \<Longrightarrow> wellFormed (moved key w p s)"
proof -
  assume wf: "wellFormed s"
  let ?s1 = "s\<lparr>windows := setPosition (windows s) w p\<rparr>"
  have wf1: "wellFormed ?s1"
    using wf by (simp add: wellFormed_def)
  show ?thesis
  proof (cases "isLive (windows s) w")
    case False
    then show ?thesis using wf by (simp add: moved_def)
  next
    case True
    show ?thesis
    proof (cases "map_of (activeWindows s) key")
      case None
      then show ?thesis
        using True wf1 by (simp add: moved_def updateDraggedPosition_def Let_def wellFormed_def)
    next
      case (Some st)
      have "wellFormed (?s1\<lparr>windows := windows ?s1,
              activeWindows :=
                Map_set key (st\<lparr>manualPos := Some (win_position (windows ?s1 ! w))\<rparr>)
                  (activeWindows ?s1)\<rparr>)"
        using Some by (intro wellFormed_replace [OF wf1, of key st]) simp_all
      then show ?thesis
        using True Some by (simp add: moved_def updateDraggedPosition_def Let_def wellFormed_def)
    qed
  qed
qed

lemma length_setSize [simp]: "length (setSize ws w sz) = length ws"
  by (simp add: setSize_def)

lemma isLive_setSize [simp]: "isLive (setSize ws w sz) = isLive ws"
  by (auto simp add: setSize_def isLive_def fun_eq_iff nth_list_update)

lemma nth_setSize_same: "w < length ws \<Longrightarrow> setSize ws w sz ! w = (ws ! w)\<lparr>win_size := sz\<rparr>"
  by (simp add: setSize_def)

lemma applyPositions_frame:
  "isDestroyed (applyPositions ws as ! v) = isDestroyed (ws ! v)
   \<and> win_size (applyPositions ws as ! v) = win_size (ws ! v)"
  by (induction as arbitrary: ws) (simp_all add: setPosition_frame)

lemma repositionWindows_frame:
  "isDestroyed (windows (repositionWindows s) ! v) = isDestroyed (windows s ! v)
   \<and> win_size (windows (repositionWindows s) ! v) = win_size (windows s ! v)"
  by (simp add: repositionWindows_def repositionLoop_planned applyPositions_frame)

lemma onResize_accepted:
  assumes "payload_id pl \<noteq> []" and "map_of (activeWindows s) (payload_id pl) = Some st"
    and "isLive (windows s) (win st)"
    and "normalizeRequestedHeight toNumber (payload_height pl) = Inr h"
  shows "onResize toNumber (Some pl) s
           = (if currentHeight st = h then s
              else repositionWindows
                     (s\<lparr>activeWindows :=
                          Map_set (payload_id pl) (st\<lparr>currentHeight := h\<rparr>) (activeWindows s),
                        windows := setSize (windows s) (win st) (WINDOW_WIDTH, h)\<rparr>))"
  using assms by (simp add: onResize_def Let_def)

lemma onResize_raises:
  "normalizeRequestedHeight toNumber (payload_height pl) = Inl e \<Longrightarrow>
     onResize toNumber (Some pl) s = s"
  by (simp add: onResize_def Let_def split: option.splits)

text \<open>
  A resize request either changes nothing or is one the handler acts on: its id is
  not empty and names an entry with a live window, the normalization gives a height
  other than the stored one, the entry gets this height, the window this size, and
  the layout pass runs.
\<close>

lemma onResize_cases:
  "onResize toNumber payload s = s
   \<or> (\<exists>pl st h. payload = Some pl \<and> payload_id pl \<noteq> []
        \<and> map_of (activeWindows s) (payload_id pl) = Some st
        \<and> isLive (windows s) (win st)
        \<and> normalizeRequestedHeight toNumber (payload_height pl) = Inr h
        \<and> onResize toNumber payload s
            = repositionWindows
                (s\<lparr>activeWindows :=
                     Map_set (payload_id pl) (st\<lparr>currentHeight := h\<rparr>) (activeWindows s),
                   windows := setSize (windows s) (win st) (WINDOW_WIDTH, h)\<rparr>))"
  by (auto simp add: onResize_def Let_def split: option.splits sum.splits)

lemma wellFormed_onResize: "wellFormed s \<Longrightarrow> wellFormed (onResize toNumber payload s)"
proof -
  assume wf: "wellFormed s"
  from onResize_cases [of toNumber payload s] show ?thesis
  proof
    assume "onResize toNumber payload s = s"
    then show ?thesis using wf by simp
  next
    assume "\<exists>pl st h. payload = Some pl \<and> payload_id pl \<noteq> []
        \<and> map_of (activeWindows s) (payload_id pl) = Some st
        \<and> isLive (windows s) (win st)
        \<and> normalizeRequestedHeight toNumber (payload_height pl) = Inr h
        \<and> onResize toNumber payload s
            = repositionWindows
                (s\<lparr>activeWindows :=
                     Map_set (payload_id pl) (st\<lparr>currentHeight := h\<rparr>) (activeWindows s),
                   windows := setSize (windows s) (win st) (WINDOW_WIDTH, h)\<rparr>)"
    then obtain pl st h where pl: "payload = Some pl"
      and st: "map_of (activeWindows s) (payload_id pl) = Some st"
      and eq: "onResize toNumber payload s
            = repositionWindows
                (s\<lparr>activeWindows :=
                     Map_set (payload_id pl) (st\<lparr>currentHeight := h\<rparr>) (activeWindows s),
                   windows := setSize (windows s) (win st) (WINDOW_WIDTH, h)\<rparr>)"
      by blast
    have "wellFormed (s\<lparr>windows := setSize (windows s) (win st) (WINDOW_WIDTH, h),
              activeWindows := Map_set (payload_id pl) (st\<lparr>currentHeight := h\<rparr>) (activeWindows s)\<rparr>)"
      using st by (intro wellFormed_replace [OF wf, of "payload_id pl" st]) simp_all
    then have "wellFormed (repositionWindows
                (s\<lparr>activeWindows :=
                     Map_set (payload_id pl) (st\<lparr>currentHeight := h\<rparr>) (activeWindows s),
                   windows := setSize (windows s) (win st) (WINDOW_WIDTH, h)\<rparr>))"
      by (simp add: wellFormed_def)
    then show ?thesis by (simp only: eq)
  qed
qed

lemma wellFormed_onClosed: "wellFormed s \<Longrightarrow> wellFormed (onClosed key s)"
  using wellFormed_delete [of s "windows s" key] by (simp add: onClosed_def)

lemma length_closeLoop [simp]: "length (closeLoop es ws) = length ws"
  by (induction es arbitrary: ws) auto

lemma wellFormed_closeAll: "wellFormed (closeAll s)"
  by (simp add: closeAll_def wellFormed_def)

subsection \<open>Resize requests\<close>

text \<open>
  Claim C5.  A resize request names, by a non-empty id, a conversation with a live
  overlay window, and asks for a finite height \<open>r\<close>.  Then the normalization gives
  a height \<open>h\<close>, which is the height stored afterwards; \<open>h\<close> is \<open>WINDOW_MIN_HEIGHT\<close>
  when \<open>r\<close> is below \<open>WINDOW_MIN_HEIGHT\<close> and \<open>WINDOW_MAX_HEIGHT\<close> when \<open>r\<close> is above
  \<open>WINDOW_MAX_HEIGHT\<close>.  When \<open>h\<close> is the entry's current height the handler returns
  at once and the state (stored height, window size, positions) is the one before.
  Otherwise the window gets the new height and the layout pass has run.
\<close>

theorem onResize_clamps_finite_height:
  assumes key: "payload_id pl \<noteq> []"
    and entry: "map_of (activeWindows s) (payload_id pl) = Some st"
    and live: "isLive (windows s) (win st)"
    and height: "asNumber toNumber (payload_height pl) = Inr (Finite r)"
  shows
    "\<exists>h. normalizeRequestedHeight toNumber (payload_height pl) = Inr h
       \<and> map_of (activeWindows (onResize toNumber (Some pl) s)) (payload_id pl)
           = Some (st\<lparr>currentHeight := h\<rparr>)
       \<and> (r < real_of_int WINDOW_MIN_HEIGHT \<longrightarrow> h = WINDOW_MIN_HEIGHT)
       \<and> (real_of_int WINDOW_MAX_HEIGHT < r \<longrightarrow> h = WINDOW_MAX_HEIGHT)
       \<and> (h = currentHeight st \<longrightarrow> onResize toNumber (Some pl) s = s)
       \<and> (h \<noteq> currentHeight st \<longrightarrow>
             win_size (windows (onResize toNumber (Some pl) s) ! win st) = (WINDOW_WIDTH, h)
             \<and> repositionWindows (onResize toNumber (Some pl) s) = onResize toNumber (Some pl) s)"
proof -
  define h where "h = clamp \<lceil>r\<rceil> WINDOW_MIN_HEIGHT WINDOW_MAX_HEIGHT"
  have norm: "normalizeRequestedHeight toNumber (payload_height pl) = Inr h"
    using height by (simp add: normalizeRequestedHeight_finite h_def)
  note eq = onResize_accepted [OF key entry live norm]
  have w: "win st < length (windows s)"
    using live by (simp add: isLive_def)
  have stored: "map_of (activeWindows (onResize toNumber (Some pl) s)) (payload_id pl)
      = Some (st\<lparr>currentHeight := h\<rparr>)"
  proof (cases "currentHeight st = h")
    case True
    then have "st\<lparr>currentHeight := h\<rparr> = st" by simp
    then show ?thesis using True entry by (simp add: eq)
  next
    case False
    then show ?thesis by (simp add: eq map_of_Map_set)
  qed
  have noop: "onResize toNumber (Some pl) s = s" if "h = currentHeight st"
    using that by (simp add: eq)
  have resized: "win_size (windows (onResize toNumber (Some pl) s) ! win st) = (WINDOW_WIDTH, h)
      \<and> repositionWindows (onResize toNumber (Some pl) s) = onResize toNumber (Some pl) s"
    if "h \<noteq> currentHeight st"
    using that w by (simp add: eq repositionWindows_frame repositionWindows_idem nth_setSize_same)
  have low: "h = WINDOW_MIN_HEIGHT" if "r < real_of_int WINDOW_MIN_HEIGHT"
    using that clamp_ceiling_low [of r] by (simp add: h_def)
  have high: "h = WINDOW_MAX_HEIGHT" if "real_of_int WINDOW_MAX_HEIGHT < r"
    using that clamp_ceiling_high [of r] by (simp add: h_def)
  show ?thesis
    using norm stored noop resized low high by (intro exI [of _ h]) blast
qed

lemma tallOverlay_eval:
  "tallOverlay =
     \<lparr>activeWindows =
        [(''a'', \<lparr>win = 0, st_channelId = ''a'', st_authorName = ''friend'',
                  st_authorAvatar = ''avatar.png'',
                  messages = [\<lparr>msg_id = ''m'', msg_content = ''hi'', msg_timestamp = 1000\<rparr>],
                  lastTimestamp = 1000, currentHeight = 300, manualPos = None\<rparr>),
         (''b'', \<lparr>win = 1, st_channelId = ''b'', st_authorName = ''friend'',
                  st_authorAvatar = ''avatar.png'',
                  messages = [\<lparr>msg_id = ''m'', msg_content = ''hi'', msg_timestamp = 2000\<rparr>],
                  lastTimestamp = 2000, currentHeight = 160, manualPos = None\<rparr>)],
      lastDraggedPos = None,
      windows =
        [\<lparr>isDestroyed = False, win_position = (1406, 760), win_size = (494, 300)\<rparr>,
         \<lparr>isDestroyed = False, win_position = (1406, 590), win_size = (494, 160)\<rparr>],
      workAreaSize = (1920, 1080)\<rparr>"
  by (simp add: tallOverlay_def twoOverlays_eval onResize_def normalizeRequestedHeight_def
        asNumber_def clamp_def setSize_def eval_defs)

theorem onResize_clamps_finite_height_witness:
  "map (\<lambda>p. (fst p, currentHeight (snd p)))
     (activeWindows (onResize sampleToNumber
        (Some \<lparr>payload_id = ''a'', payload_height = JNumber (Finite 100)\<rparr>) tallOverlay))
     = [(''a'', 160), (''b'', 160)]
   \<and> map (\<lambda>p. (fst p, currentHeight (snd p)))
     (activeWindows (onResize sampleToNumber
        (Some \<lparr>payload_id = ''a'', payload_height = JNumber (Finite 1000)\<rparr>) tallOverlay))
     = [(''a'', 420), (''b'', 160)]
   \<and> onResize sampleToNumber
        (Some \<lparr>payload_id = ''a'', payload_height = JNumber (Finite (2995 / 10))\<rparr>) tallOverlay
     = tallOverlay"
  using onResize_clamps_finite_height
      [of "\<lparr>payload_id = ''a'', payload_height = JNumber (Finite 100)\<rparr>" tallOverlay
        "snd (activeWindows tallOverlay ! 0)" sampleToNumber 100]
    onResize_clamps_finite_height
      [of "\<lparr>payload_id = ''a'', payload_height = JNumber (Finite 1000)\<rparr>" tallOverlay
        "snd (activeWindows tallOverlay ! 0)" sampleToNumber 1000]
    onResize_clamps_finite_height
      [of "\<lparr>payload_id = ''a'', payload_height = JNumber (Finite (2995 / 10))\<rparr>" tallOverlay
        "snd (activeWindows tallOverlay ! 0)" sampleToNumber "2995 / 10"]
  by (simp add: tallOverlay_eval onResize_def normalizeRequestedHeight_def
        asNumber_def clamp_def setSize_def eval_defs)

text \<open>
  The overlay's script sends \<open>document.documentElement.scrollHeight\<close>, a finite
  number.  For a height that is not finite the stored height becomes
  \<open>WINDOW_MIN_HEIGHT\<close>, also for plus infinity: conversation a goes from 300 to 160.
\<close>

lemma onResize_infinite_height:
  "map (\<lambda>p. (fst p, currentHeight (snd p))) (activeWindows tallOverlay)
     = [(''a'', 300), (''b'', 160)]
   \<and> map (\<lambda>p. (fst p, currentHeight (snd p)))
     (activeWindows (onResize sampleToNumber
        (Some \<lparr>payload_id = ''a'', payload_height = JNumber PosInfinity\<rparr>) tallOverlay))
     = [(''a'', 160), (''b'', 160)]"
  by (simp add: tallOverlay_eval onResize_def normalizeRequestedHeight_def
        asNumber_def clamp_def setSize_def eval_defs)

subsection \<open>Windows the layout pass leaves alone\<close>

lemma repositionWindows_keeps:
  assumes wf: "wellFormed s" and e: "map_of (activeWindows s) B = Some e"
    and man: "manualPos e \<noteq> None"
  shows "windows (repositionWindows s) ! win e = windows s ! win e"
proof -
  have "(B, e) \<in> set (activeWindows s)"
    using e by (rule map_of_SomeD)
  then obtain i where i: "i < length (activeWindows s)" "activeWindows s ! i = (B, e)"
    by (auto simp add: in_set_conv_nth)
  have d: "distinct (map (win \<circ> snd) (activeWindows s))"
    using wf by (simp add: wellFormed_def)
  have "\<not> autoPlaced (windows s) (snd (activeWindows s ! i))"
    using man i(2) by (simp add: autoPlaced_def)
  from repositionLoop_not_auto [OF d i(1) this, of "workAreaSize s" 0 0]
  show ?thesis
    using i(2) by (simp add: repositionWindows_def)
qed

lemma repositionWindows_untouched:
  assumes "w \<notin> set (map (win \<circ> snd) (activeWindows s))"
  shows "windows (repositionWindows s) ! w = windows s ! w"
proof -
  have "w \<notin> win ` set (autoEntries (windows s) (activeWindows s))"
    using assms by (auto simp add: set_autoEntries)
  then show ?thesis
    by (simp add: repositionWindows_def repositionLoop_other)
qed

lemma handle_not_in_delete:
  assumes wf: "wellFormed s" and e: "map_of (activeWindows s) k = Some e"
  shows "win e \<notin> set (map (win \<circ> snd) (Map_delete k (activeWindows s)))"
proof
  have mem: "(k, e) \<in> set (activeWindows s)"
    using e by (rule map_of_SomeD)
  assume "win e \<in> set (map (win \<circ> snd) (Map_delete k (activeWindows s)))"
  then obtain k' e'' where p: "(k', e'') \<in> set (activeWindows s)" "k' \<noteq> k" "win e'' = win e"
    by (auto simp add: Map_delete_def)
  have "inj_on (win \<circ> snd) (set (activeWindows s))"
    using wf by (simp add: wellFormed_def distinct_map)
  moreover have "(win \<circ> snd) (k', e'') = (win \<circ> snd) (k, e)"
    using p(3) by simp
  ultimately have "(k', e'') = (k, e)"
    using p(1) mem by (rule inj_onD)
  with p(2) show False by simp
qed

lemma closeWindow_position: "win_position (closeWindow ws w ! v) = win_position (ws ! v)"
  by (cases "v = w") (auto simp add: closeWindow_def)

lemma closeNotification_position:
  assumes wf: "wellFormed s" and e: "map_of (activeWindows s) B = Some e"
    and man: "manualPos e \<noteq> None"
  shows "win_position (windows (closeNotification k s) ! win e) = win_position (windows s ! win e)"
proof -
  let ?ws = "case map_of (activeWindows s) k of
               None \<Rightarrow> windows s
             | Some st \<Rightarrow>
                 if isLive (windows s) (win st) then closeWindow (windows s) (win st)
                 else windows s"
  let ?mid = "s\<lparr>windows := ?ws, activeWindows := Map_delete k (activeWindows s)\<rparr>"
  have len: "length ?ws = length (windows s)"
    by (simp split: option.splits)
  have pos: "win_position (?ws ! win e) = win_position (windows s ! win e)"
    by (simp add: closeWindow_position split: option.splits)
  have wfm: "wellFormed ?mid"
    using wf len by (rule wellFormed_delete)
  have "windows (repositionWindows ?mid) ! win e = windows ?mid ! win e"
  proof (cases "k = B")
    case True
    have "win e \<notin> set (map (win \<circ> snd) (activeWindows ?mid))"
      using handle_not_in_delete [OF wf e] True by simp
    then show ?thesis by (rule repositionWindows_untouched)
  next
    case False
    then have "map_of (activeWindows ?mid) B = Some e"
      using e by (simp add: map_of_Map_delete)
    then show ?thesis
      using wfm man by (intro repositionWindows_keeps)
  qed
  then show ?thesis
    using pos by (simp add: closeNotification_def Let_def)
qed

lemma limitOverlays_position:
  assumes "wellFormed s" and "map_of (activeWindows s) B = Some e" and "manualPos e \<noteq> None"
  shows "win_position (windows (limitOverlays s) ! win e) = win_position (windows s ! win e)"
  using closeNotification_position [OF assms]
  by (simp add: limitOverlays_def split: option.splits)

lemma showNotification_position:
  assumes wf: "wellFormed s" and e: "map_of (activeWindows s) B = Some e"
    and man: "manualPos e \<noteq> None" and other: "channelId d \<noteq> B"
  shows "win_position (windows (showNotification now d s) ! win e) = win_position (windows s ! win e)"
proof (cases "liveEntry s (channelId d)")
  case (Some ex)
  let ?new = "ex\<lparr>messages := pushMessage (messages ex) (overlayMessage now d),
                   lastTimestamp := msg_timestamp (overlayMessage now d)\<rparr>"
  let ?mid = "s\<lparr>activeWindows := Map_set (channelId d) ?new (Map_delete (channelId d) (activeWindows s))\<rparr>"
  have ex: "map_of (activeWindows s) (channelId d) = Some ex"
    using Some by (simp add: liveEntry_Some)
  have wfm: "wellFormed ?mid"
    using wf ex by (rule wellFormed_promote) simp
  have "map_of (activeWindows ?mid) B = Some e"
    using e other by (simp add: map_of_Map_set map_of_Map_delete)
  then have "windows (repositionWindows ?mid) ! win e = windows ?mid ! win e"
    using wfm man by (intro repositionWindows_keeps)
  then show ?thesis
    by (simp add: showNotification_existing [OF Some])
next
  case None
  have "(B, e) \<in> set (activeWindows s)"
    using e by (rule map_of_SomeD)
  then have "win e < length (windows s)"
    using wf by (auto simp add: wellFormed_def list_all_iff)
  then show ?thesis
    using limitOverlays_position [OF wf e man]
    by (simp add: showNotification_new [OF None] nth_append)
qed

subsection \<open>A new overlay after a drag\<close>






lemma afterDrag_then_b:
  "showNotification 3000 (notificationFrom ''b'' 3000) afterDrag =
     \<lparr>activeWindows =
        [(''a'', \<lparr>win = 0, st_channelId = ''a'', st_authorName = ''friend'',
                  st_authorAvatar = ''avatar.png'',
                  messages = [\<lparr>msg_id = ''m'', msg_content = ''hi'', msg_timestamp = 1000\<rparr>],
                  lastTimestamp = 1000, currentHeight = 160, manualPos = Some (100, 200)\<rparr>),
         (''b'', \<lparr>win = 1, st_channelId = ''b'', st_authorName = ''friend'',
                  st_authorAvatar = ''avatar.png'',
                  messages = [\<lparr>msg_id = ''m'', msg_content = ''hi'', msg_timestamp = 2000\<rparr>,
                              \<lparr>msg_id = ''m'', msg_content = ''hi'', msg_timestamp = 3000\<rparr>],
                  lastTimestamp = 3000, currentHeight = 160, manualPos = None\<rparr>)],
      lastDraggedPos = Some (100, 200),
      windows =
        [\<lparr>isDestroyed = False, win_position = (100, 200), win_size = (494, 160)\<rparr>,
         \<lparr>isDestroyed = False, win_position = (1406, 900), win_size = (494, 160)\<rparr>],
      workAreaSize = (1920, 1080)\<rparr>"
  by (simp add: afterDrag_eval eval_defs)

subsection \<open>Eviction of the first entry\<close>

text \<open>
  At a full registry whose first key is not empty, a notification of a new
  conversation closes the window of the first entry, removes the entry and puts the
  new one last.
\<close>

lemma showNotification_evicts_oldest:
  assumes full: "length (activeWindows s) \<ge> MAX_OVERLAY_WINDOWS"
    and first: "activeWindows s = (k0, e0) # rest"
    and k0: "k0 \<noteq> []"
    and dist: "distinct (map fst (activeWindows s))"
    and new: "channelId d \<notin> set (map fst (activeWindows s))"
  shows "map fst (activeWindows (showNotification now d s)) = map fst rest @ [channelId d]"
    and "isLive (windows s) (win e0) \<Longrightarrow>
           isDestroyed (windows (showNotification now d s) ! win e0)"
proof -
  have none: "liveEntry s (channelId d) = None"
    using new by (simp add: liveEntry_def map_of_None_iff [THEN iffD2])
  have "k0 \<notin> set (map fst rest)"
    using dist first by simp
  then have del: "Map_delete k0 (activeWindows s) = rest"
    using first by (simp add: Map_delete_def Map_delete_absent [unfolded Map_delete_def])
  have lim: "limitOverlays s = closeNotification k0 s"
    using full first k0 by (simp add: limitOverlays_def firstKey_def)
  have keys: "activeWindows (limitOverlays s) = rest"
    by (simp add: lim activeWindows_closeNotification del)
  have "channelId d \<notin> set (map fst rest)"
    using new first by simp
  then show "map fst (activeWindows (showNotification now d s)) = map fst rest @ [channelId d]"
    by (simp add: keys_showNotification_new [OF none] keys)
  assume live: "isLive (windows s) (win e0)"
  then have w: "win e0 < length (windows s)"
    by (simp add: isLive_def)
  have "isDestroyed (windows (closeNotification k0 s) ! win e0)"
    using live w first
    by (simp add: closeNotification_def Let_def repositionWindows_frame closeWindow_def)
  then show "isDestroyed (windows (showNotification now d s) ! win e0)"
    using w by (simp add: showNotification_new [OF none] lim nth_append)
qed

lemma wellFormed_showAll: "wellFormed s \<Longrightarrow> wellFormed (showAll cs s)"
  by (induction cs arbitrary: s) (simp_all add: wellFormed_showNotification)

subsection \<open>Closing twice\<close>

text \<open>
  Claim C7.  Closing a conversation a second time changes nothing: the state after
  the second call is the state after the first.  Closing an id that is not in the
  registry closes no window and removes no entry; all it does is run the layout pass.
\<close>

theorem closeNotification_idempotent:
  "closeNotification ident (closeNotification ident s) = closeNotification ident s
   \<and> (map_of (activeWindows s) ident = None \<longrightarrow>
        closeNotification ident s = repositionWindows s
        \<and> activeWindows (closeNotification ident s) = activeWindows s
        \<and> isLive (windows (closeNotification ident s)) = isLive (windows s))"
proof -
  let ?s1 = "closeNotification ident s"
  have gone: "map_of (activeWindows ?s1) ident = None"
    by (simp add: activeWindows_closeNotification map_of_Map_delete)
  have laid: "repositionWindows ?s1 = ?s1"
    by (simp add: closeNotification_def Let_def repositionWindows_idem)
  have "closeNotification ident ?s1 = ?s1"
    using closeNotification_absent [OF gone] laid by simp
  moreover have "closeNotification ident s = repositionWindows s
      \<and> activeWindows (closeNotification ident s) = activeWindows s
      \<and> isLive (windows (closeNotification ident s)) = isLive (windows s)"
    if "map_of (activeWindows s) ident = None"
    using closeNotification_absent [OF that] by simp
  ultimately show ?thesis by blast
qed

theorem closeNotification_idempotent_witness:
  "map_of (activeWindows twoOverlays) ''zz'' = None
   \<and> closeNotification ''zz'' twoOverlays = repositionWindows twoOverlays
   \<and> closeNotification ''b'' (closeNotification ''b'' twoOverlays) = closeNotification ''b'' twoOverlays
   \<and> map fst (activeWindows (closeNotification ''b'' twoOverlays)) = [''a'']"
  using closeNotification_idempotent [of "''zz''" twoOverlays]
    closeNotification_idempotent [of "''b''" twoOverlays]
  by (simp add: twoOverlays_eval activeWindows_closeNotification Map_delete_def)

section \<open>Runs of events\<close>

subsection \<open>What an event leaves alone\<close>

lemma moved_cases:
  "moved key w p s = s
   \<or> (isLive (windows s) w
      \<and> moved key w p s
          = s\<lparr>windows := setPosition (windows s) w p, lastDraggedPos := Some p,
              activeWindows :=
                (case map_of (activeWindows s) key of
                   None \<Rightarrow> activeWindows s
                 | Some st \<Rightarrow> Map_set key (st\<lparr>manualPos := Some p\<rparr>) (activeWindows s))\<rparr>)"
proof (cases "isLive (windows s) w")
  case False
  then show ?thesis by (simp add: moved_def)
next
  case True
  then have "w < length (windows s)" by (simp add: isLive_def)
  then show ?thesis
    using True
    by (simp add: moved_def updateDraggedPosition_def Let_def nth_setPosition_same
          split: option.splits)
qed

lemma length_windows_closeAll [simp]: "length (windows (closeAll s)) = length (windows s)"
  by (simp add: closeAll_def)

lemma length_windows_onClosed [simp]: "length (windows (onClosed key s)) = length (windows s)"
  by (simp add: onClosed_def)

lemma length_windows_moved [simp]: "length (windows (moved key w p s)) = length (windows s)"
  using moved_cases [of key w p s] by auto

lemma length_windows_onResize [simp]:
  "length (windows (onResize toNumber payload s)) = length (windows s)"
  using onResize_cases [of toNumber payload s] by auto



lemma wellFormed_handleEvent: "wellFormed s \<Longrightarrow> wellFormed (handleEvent toNumber ev s)"
proof (cases ev)
  case (Closed key w)
  assume "wellFormed s"
  then have "wellFormed (s\<lparr>windows := closeWindow (windows s) w\<rparr>)"
    by (simp add: wellFormed_def)
  then show ?thesis using Closed by (simp add: wellFormed_onClosed)
qed (simp_all add: wellFormed_showNotification wellFormed_closeNotification wellFormed_closeAll
      wellFormed_onResize wellFormed_moved onDidFinishLoad_def)

lemma wellFormed_run: "wellFormed s \<Longrightarrow> wellFormed (run toNumber evs s)"
  by (induction evs arbitrary: s) (simp_all add: wellFormed_handleEvent)

lemma run_append: "run toNumber (xs @ ys) s = run toNumber ys (run toNumber xs s)"
  by (induction xs arbitrary: s) simp_all

text \<open>
  Every state the module can be in, after any events since it was loaded, is
  well-formed.
\<close>

lemma wellFormed_reachable: "wellFormed (run toNumber evs (initialState workArea persisted))"
  by (rule wellFormed_run) (rule wellFormed_initialState)

subsection \<open>Properties of the single entries\<close>

text \<open>
  A property of registry entries holds for every entry after an event when it held
  for every entry before, holds for an entry as \<open>showNotification\<close> creates it, and
  is kept by the three updates of an entry: a message is appended, the height is
  set to a normalized height, a manual position is set.
\<close>

lemma list_all_entry:
  "list_all P m \<Longrightarrow> map_of m k = Some e \<Longrightarrow> P (k, e)"
  by (auto simp add: list_all_iff dest: map_of_SomeD)

lemma list_all_limitOverlays:
  "list_all P (activeWindows s) \<Longrightarrow> list_all P (activeWindows (limitOverlays s))"
  using set_activeWindows_limitOverlays [of s] by (auto simp add: list_all_iff)

lemma handleEvent_entries:
  assumes inv: "list_all (\<lambda>p. P (snd p)) (activeWindows s)"
    and new: "\<And>k n a m t mp.
        P \<lparr>win = length (windows s), st_channelId = k, st_authorName = n, st_authorAvatar = a,
           messages = [m], lastTimestamp = t, currentHeight = WINDOW_MIN_HEIGHT, manualPos = mp\<rparr>"
    and push: "\<And>e m t. P e \<Longrightarrow> P (e\<lparr>messages := pushMessage (messages e) m, lastTimestamp := t\<rparr>)"
    and height: "\<And>e h. P e \<Longrightarrow> WINDOW_MIN_HEIGHT \<le> h \<Longrightarrow> h \<le> WINDOW_MAX_HEIGHT \<Longrightarrow>
        P (e\<lparr>currentHeight := h\<rparr>)"
    and drag: "\<And>e p. P e \<Longrightarrow> P (e\<lparr>manualPos := Some p\<rparr>)"
  shows "list_all (\<lambda>p. P (snd p)) (activeWindows (handleEvent toNumber ev s))"
proof (cases ev)
  case (ShowNotification now d)
  show ?thesis
  proof (cases "liveEntry s (channelId d)")
    case None
    have "list_all (\<lambda>p. P (snd p)) (activeWindows (limitOverlays s))"
      using inv by (rule list_all_limitOverlays)
    then show ?thesis
      using ShowNotification new
      by (simp add: showNotification_new [OF None] list_all_Map_set)
  next
    case (Some e)
    then have "map_of (activeWindows s) (channelId d) = Some e"
      by (simp add: liveEntry_Some)
    then have "P e"
      using list_all_entry [OF inv] by fastforce
    then have "P (e\<lparr>messages := pushMessage (messages e) (overlayMessage now d),
                     lastTimestamp := msg_timestamp (overlayMessage now d)\<rparr>)"
      by (rule push)
    then show ?thesis
      using ShowNotification inv
      by (simp add: showNotification_existing [OF Some] list_all_Map_set list_all_Map_delete)
  qed
next
  case (CloseNotification ident)
  then show ?thesis
    using inv by (simp add: activeWindows_closeNotification list_all_Map_delete)
next
  case CloseAll
  then show ?thesis by (simp add: closeAll_def)
next
  case (ResizeRequest payload)
  from onResize_cases [of toNumber payload s] show ?thesis
  proof
    assume "onResize toNumber payload s = s"
    then show ?thesis using ResizeRequest inv by simp
  next
    assume "\<exists>pl st h. payload = Some pl \<and> payload_id pl \<noteq> []
        \<and> map_of (activeWindows s) (payload_id pl) = Some st
        \<and> isLive (windows s) (win st)
        \<and> normalizeRequestedHeight toNumber (payload_height pl) = Inr h
        \<and> onResize toNumber payload s
            = repositionWindows
                (s\<lparr>activeWindows :=
                     Map_set (payload_id pl) (st\<lparr>currentHeight := h\<rparr>) (activeWindows s),
                   windows := setSize (windows s) (win st) (WINDOW_WIDTH, h)\<rparr>)"
    then obtain pl st h where pl: "payload = Some pl"
      and st: "map_of (activeWindows s) (payload_id pl) = Some st"
      and h: "normalizeRequestedHeight toNumber (payload_height pl) = Inr h"
      and eq: "onResize toNumber payload s
            = repositionWindows
                (s\<lparr>activeWindows :=
                     Map_set (payload_id pl) (st\<lparr>currentHeight := h\<rparr>) (activeWindows s),
                   windows := setSize (windows s) (win st) (WINDOW_WIDTH, h)\<rparr>)"
      by blast
    have "P st"
      using list_all_entry [OF inv st] by simp
    then have "P (st\<lparr>currentHeight := h\<rparr>)"
      using normalizeRequestedHeight_range [OF h] by (intro height) simp_all
    then show ?thesis
      using ResizeRequest inv by (simp add: eq list_all_Map_set)
  qed
next
  case (Moved key w p)
  from moved_cases [of key w p s] show ?thesis
  proof
    assume "moved key w p s = s"
    then show ?thesis using Moved inv by simp
  next
    assume a: "isLive (windows s) w
      \<and> moved key w p s
          = s\<lparr>windows := setPosition (windows s) w p, lastDraggedPos := Some p,
              activeWindows :=
                (case map_of (activeWindows s) key of
                   None \<Rightarrow> activeWindows s
                 | Some st \<Rightarrow> Map_set key (st\<lparr>manualPos := Some p\<rparr>) (activeWindows s))\<rparr>"
    show ?thesis
    proof (cases "map_of (activeWindows s) key")
      case None
      then show ?thesis using Moved inv a by simp
    next
      case (Some st)
      have "P st"
        using list_all_entry [OF inv Some] by simp
      then have "P (st\<lparr>manualPos := Some p\<rparr>)"
        by (rule drag)
      then show ?thesis using Moved inv a Some by (simp add: list_all_Map_set)
    qed
  qed
next
  case (Closed key w)
  then show ?thesis
    using inv by (simp add: onClosed_def list_all_Map_delete)
next
  case DidFinishLoad
  then show ?thesis
    using inv by (simp add: onDidFinishLoad_def)
qed

lemma heightsInRange_handleEvent:
  "heightsInRange s \<Longrightarrow> heightsInRange (handleEvent toNumber ev s)"
  unfolding heightsInRange_def
  by (rule handleEvent_entries) (simp_all add: WINDOW_MIN_HEIGHT_def WINDOW_MAX_HEIGHT_def)

lemma heightsInRange_run: "heightsInRange s \<Longrightarrow> heightsInRange (run toNumber evs s)"
  by (induction evs arbitrary: s) (simp_all add: heightsInRange_handleEvent)

lemma heightsInRange_initialState: "heightsInRange (initialState workArea persisted)"
  by (simp add: heightsInRange_def initialState_def)

lemma messages_bounded_handleEvent:
  "list_all (\<lambda>p. length (messages (snd p)) \<le> MAX_RENDERED_MESSAGES) (activeWindows s) \<Longrightarrow>
     list_all (\<lambda>p. length (messages (snd p)) \<le> MAX_RENDERED_MESSAGES)
       (activeWindows (handleEvent toNumber ev s))"
  by (rule handleEvent_entries) (simp_all add: length_pushMessage MAX_RENDERED_MESSAGES_def)

lemma messages_bounded_run:
  "list_all (\<lambda>p. length (messages (snd p)) \<le> MAX_RENDERED_MESSAGES) (activeWindows s) \<Longrightarrow>
     list_all (\<lambda>p. length (messages (snd p)) \<le> MAX_RENDERED_MESSAGES)
       (activeWindows (run toNumber evs s))"
  by (induction evs arbitrary: s) (simp_all add: messages_bounded_handleEvent)

lemma messages_bounded_reachable:
  "list_all (\<lambda>p. length (messages (snd p)) \<le> MAX_RENDERED_MESSAGES)
     (activeWindows (run toNumber evs (initialState workArea persisted)))"
  by (rule messages_bounded_run) (simp add: initialState_def)

subsection \<open>The bound on the number of overlays\<close>






text \<open>
  The capacity check tests the first key for truthiness, so it passes over a first
  entry that is registered under the empty string: after the run \<open>emptyKeyRun\<close>,
  whose first notification has the empty string as its channel id, the registry
  holds six entries and none of the six windows has been closed.  The plugin never
  sends such a notification.
\<close>

lemma showNotification_empty_key:
  "map fst (activeWindows (showAll emptyKeyRun (initialState (1920, 1080) None)))
     = ['''', ''a'', ''b'', ''c'', ''d'', ''e'']
   \<and> length (activeWindows (showAll emptyKeyRun (initialState (1920, 1080) None)))
        > MAX_OVERLAY_WINDOWS
   \<and> map isDestroyed (windows (showAll emptyKeyRun (initialState (1920, 1080) None)))
        = [False, False, False, False, False, False]"
  by (simp add: emptyKeyRun_def eval_defs)

subsection \<open>The message buffer under events\<close>

lemma isLive_closeWindow: "isLive (closeWindow ws v) w \<Longrightarrow> isLive ws w"
  by (auto simp add: isLive_def closeWindow_def nth_list_update split: if_splits)

lemma isLive_closeNotification:
  "isLive (windows (closeNotification k s)) w \<Longrightarrow> isLive (windows s) w"
  by (auto simp add: closeNotification_def Let_def dest: isLive_closeWindow
      split: option.splits if_splits)

lemma isLive_limitOverlays:
  "isLive (windows (limitOverlays s)) w \<Longrightarrow> isLive (windows s) w"
  by (auto simp add: limitOverlays_def dest: isLive_closeNotification
      split: option.splits if_splits)

lemma isLive_closeLoop: "isLive (closeLoop es ws) w \<Longrightarrow> isLive ws w"
  by (induction es arbitrary: ws) (auto dest: isLive_closeWindow split: if_splits)

lemma handleEvent_isLive:
  "isLive (windows (handleEvent toNumber ev s)) w \<Longrightarrow> w < length (windows s) \<Longrightarrow>
     isLive (windows s) w"
proof (cases ev)
  case (ShowNotification now d)
  assume a: "isLive (windows (handleEvent toNumber ev s)) w" and w: "w < length (windows s)"
  show ?thesis
  proof (cases "liveEntry s (channelId d)")
    case (Some e)
    then show ?thesis using a ShowNotification by (simp add: showNotification_existing)
  next
    case None
    have "isLive (windows (limitOverlays s)) w"
      using a w ShowNotification
      by (simp add: showNotification_new [OF None] isLive_def nth_append)
    then show ?thesis
      by (rule isLive_limitOverlays)
  qed
next
  case (CloseNotification ident)
  assume "isLive (windows (handleEvent toNumber ev s)) w"
  then show ?thesis
    using CloseNotification by (simp add: isLive_closeNotification)
next
  case CloseAll
  assume "isLive (windows (handleEvent toNumber ev s)) w"
  then show ?thesis using CloseAll by (simp add: closeAll_def isLive_closeLoop)
next
  case (ResizeRequest payload)
  assume "isLive (windows (handleEvent toNumber ev s)) w"
  then show ?thesis
    using ResizeRequest onResize_cases [of toNumber payload s] by auto
next
  case (Moved key v p)
  assume "isLive (windows (handleEvent toNumber ev s)) w"
  then show ?thesis
    using Moved moved_cases [of key v p s] by auto
next
  case (Closed key v)
  assume "isLive (windows (handleEvent toNumber ev s)) w"
  then show ?thesis
    using Closed by (simp add: onClosed_def isLive_closeWindow)
next
  case DidFinishLoad
  assume "isLive (windows (handleEvent toNumber ev s)) w"
  then show ?thesis using DidFinishLoad by (simp add: onDidFinishLoad_def)
qed

lemma handleEvent_entry:
  assumes other: "notified key ev = []"
    and after: "map_of (activeWindows (handleEvent toNumber ev s)) key = Some e'"
  shows "\<exists>e. map_of (activeWindows s) key = Some e \<and> messages e' = messages e \<and> win e' = win e"
proof (cases ev)
  case (ShowNotification now d)
  with other have k: "channelId d \<noteq> key"
    by (simp split: if_splits)
  show ?thesis
  proof (cases "liveEntry s (channelId d)")
    case (Some e)
    then show ?thesis
      using after ShowNotification k
      by (simp add: showNotification_existing map_of_Map_set map_of_Map_delete)
  next
    case None
    have "map_of (activeWindows (limitOverlays s)) key = Some e'"
      using after ShowNotification k
      by (simp add: showNotification_new [OF None] map_of_Map_set)
    then show ?thesis
      by (auto simp add: activeWindows_limitOverlays map_of_Map_delete
          split: if_splits option.splits)
  qed
next
  case (CloseNotification ident)
  then show ?thesis
    using after
    by (auto simp add: activeWindows_closeNotification map_of_Map_delete split: if_splits)
next
  case CloseAll
  then show ?thesis using after by (simp add: closeAll_def)
next
  case (ResizeRequest payload)
  then show ?thesis
    using after onResize_cases [of toNumber payload s]
    by (auto simp add: map_of_Map_set split: if_splits)
next
  case (Moved k v p)
  then show ?thesis
    using after moved_cases [of k v p s]
    by (auto simp add: map_of_Map_set split: if_splits option.splits)
next
  case (Closed k v)
  then show ?thesis
    using after
    by (auto simp add: onClosed_def map_of_Map_delete split: if_splits)
next
  case DidFinishLoad
  then show ?thesis using after by (simp add: onDidFinishLoad_def)
qed

lemma handleEvent_buffer_other:
  assumes wf: "wellFormed s"
    and other: "notified key ev = []"
  shows "buffer (handleEvent toNumber ev s) key = buffer s key
         \<or> liveEntry (handleEvent toNumber ev s) key = None"
proof (cases "liveEntry (handleEvent toNumber ev s) key")
  case None
  then show ?thesis by simp
next
  case (Some e')
  then have after: "map_of (activeWindows (handleEvent toNumber ev s)) key = Some e'"
    and live: "isLive (windows (handleEvent toNumber ev s)) (win e')"
    by (simp_all add: liveEntry_Some)
  from handleEvent_entry [OF other after] obtain e where
    e: "map_of (activeWindows s) key = Some e" "messages e' = messages e" "win e' = win e"
    by blast
  have "win e \<in> set (map (win \<circ> snd) (activeWindows s))"
    using map_of_SomeD [OF e(1)] by force
  then have "win e < length (windows s)"
    using wf by (rule handles_bounded [rotated])
  then have "isLive (windows s) (win e)"
    using live e(3) handleEvent_isLive [of toNumber ev s "win e"] by simp
  then have "liveEntry s key = Some e"
    using e(1) by (simp add: liveEntry_Some)
  then show ?thesis
    using Some e(2) by (simp add: buffer_def)
qed

lemma handleEvent_buffer_notified:
  "notified key ev \<noteq> [] \<Longrightarrow>
     buffer (handleEvent toNumber ev s) key = pushMessage (buffer s key) (hd (notified key ev))
     \<and> notified key ev = [hd (notified key ev)]"
  by (cases ev) (auto simp add: buffer_showNotification split: if_splits)

lemma lastMessages_append:
  "drop (length (drop (length xs - n) xs @ ys) - n) (drop (length xs - n) xs @ ys)
     = drop (length (xs @ ys) - n) (xs @ ys)"
  by (cases "length xs \<le> n") (auto simp add: not_le add.commute)

lemma pushMessage_drop:
  "pushMessage ms m = drop (length (ms @ [m]) - MAX_RENDERED_MESSAGES) (ms @ [m])"
  by (simp add: pushMessage_def Let_def)

lemma length_buffer_handleEvent:
  assumes "list_all (\<lambda>p. length (messages (snd p)) \<le> MAX_RENDERED_MESSAGES) (activeWindows s)"
  shows "length (buffer s key) \<le> MAX_RENDERED_MESSAGES"
proof (cases "liveEntry s key")
  case None
  then show ?thesis by (simp add: buffer_def)
next
  case (Some e)
  then have "map_of (activeWindows s) key = Some e" by (simp add: liveEntry_Some)
  then show ?thesis
    using list_all_entry [OF assms] Some by (fastforce simp add: buffer_def)
qed

lemma appended_Cons: "appended key (ev # evs) = notified key ev @ appended key evs"
  by (simp add: appended_def)

lemma buffer_run:
  assumes "wellFormed s"
    and "length (buffer s key) \<le> MAX_RENDERED_MESSAGES"
    and "staysOpen toNumber key evs s"
  shows "buffer (run toNumber evs s) key
           = drop (length (buffer s key @ appended key evs) - MAX_RENDERED_MESSAGES)
               (buffer s key @ appended key evs)"
  using assms
proof (induction evs arbitrary: s)
  case Nil
  then show ?case by (simp add: appended_def)
next
  case (Cons ev evs)
  let ?s' = "handleEvent toNumber ev s"
  from Cons.prems have live: "liveEntry ?s' key \<noteq> None"
    and rest: "staysOpen toNumber key evs ?s'"
    by simp_all
  have wf': "wellFormed ?s'"
    using Cons.prems(1) by (rule wellFormed_handleEvent)
  show ?case
  proof (cases "notified key ev = []")
    case True
    then have same: "buffer ?s' key = buffer s key"
      using handleEvent_buffer_other [OF Cons.prems(1) True, of toNumber] live by blast
    then have len: "length (buffer ?s' key) \<le> MAX_RENDERED_MESSAGES"
      using Cons.prems(2) by simp
    show ?thesis
      using Cons.IH [OF wf' len rest] same True by (simp add: appended_Cons)
  next
    case False
    define m where "m = hd (notified key ev)"
    have push: "buffer ?s' key = pushMessage (buffer s key) m"
      and one: "notified key ev = [m]"
      using handleEvent_buffer_notified [OF False, of toNumber s] by (simp_all add: m_def)
    have len: "length (buffer ?s' key) \<le> MAX_RENDERED_MESSAGES"
      by (simp add: push length_pushMessage)
    have "buffer (run toNumber (ev # evs) s) key
            = drop (length (buffer ?s' key @ appended key evs) - MAX_RENDERED_MESSAGES)
                (buffer ?s' key @ appended key evs)"
      using Cons.IH [OF wf' len rest] by simp
    also have "\<dots> = drop (length ((buffer s key @ [m]) @ appended key evs) - MAX_RENDERED_MESSAGES)
                ((buffer s key @ [m]) @ appended key evs)"
      unfolding push pushMessage_drop by (rule lastMessages_append)
    finally show ?thesis
      by (simp add: appended_Cons one)
  qed
qed

lemma wellFormed_fullBuffer: "wellFormed fullBuffer"
  by (simp add: wellFormed_def fullBuffer_def twoOverlays_eval)

lemma interleaved_staysOpen: "staysOpen sampleToNumber ''a'' interleaved fullBuffer"
  by (simp add: interleaved_def fullBuffer_def twoOverlays_eval onResize_def
        normalizeRequestedHeight_def asNumber_def clamp_def setSize_def eval_defs)

text \<open>
  Claim C4.  Start in a well-formed state in which every buffer is within the bound
  (every state the module can be in is one, \<open>wellFormed_reachable\<close> and
  \<open>messages_bounded_reachable\<close>), and let any events be handled: notifications of
  this and of other conversations, closings, resize requests, drags, the events of
  the windows.  Then every buffer is within \<open>MAX_RENDERED_MESSAGES\<close>.  A
  notification of a conversation appends its message to the buffer of the
  conversation and cuts the buffer at the front down to its last
  \<open>MAX_RENDERED_MESSAGES\<close> messages; every other event leaves the buffer as it is,
  unless it ends the conversation's overlay.  So when the overlay of the
  conversation stays open during the run, its buffer at the end is the buffer at the
  start followed by the messages notified for the conversation during the run, in
  their order of arrival, cut at the front down to the last \<open>MAX_RENDERED_MESSAGES\<close>
  of them; its length is the minimum of the total and the bound.
\<close>

theorem message_buffer_keeps_most_recent:
  assumes wf: "wellFormed s"
    and bounded: "list_all (\<lambda>p. length (messages (snd p)) \<le> MAX_RENDERED_MESSAGES) (activeWindows s)"
  shows
    "list_all (\<lambda>p. length (messages (snd p)) \<le> MAX_RENDERED_MESSAGES)
       (activeWindows (run toNumber evs s))
     \<and> length (buffer (run toNumber evs s) key) \<le> MAX_RENDERED_MESSAGES
     \<and> (\<forall>now d. channelId d = key \<longrightarrow>
          buffer (showNotification now d (run toNumber evs s)) key
            = drop (length (buffer (run toNumber evs s) key @ [overlayMessage now d])
                     - MAX_RENDERED_MESSAGES)
                (buffer (run toNumber evs s) key @ [overlayMessage now d]))
     \<and> (\<forall>ev. notified key ev = [] \<longrightarrow>
          buffer (handleEvent toNumber ev (run toNumber evs s)) key = buffer (run toNumber evs s) key
          \<or> liveEntry (handleEvent toNumber ev (run toNumber evs s)) key = None)
     \<and> (staysOpen toNumber key evs s \<longrightarrow>
          buffer (run toNumber evs s) key
            = drop (length (buffer s key) + length (appended key evs) - MAX_RENDERED_MESSAGES)
                (buffer s key @ appended key evs)
          \<and> length (buffer (run toNumber evs s) key)
              = min (length (buffer s key) + length (appended key evs)) MAX_RENDERED_MESSAGES)"
proof -
  let ?s' = "run toNumber evs s"
  have wf': "wellFormed ?s'"
    using wf by (rule wellFormed_run)
  have b': "list_all (\<lambda>p. length (messages (snd p)) \<le> MAX_RENDERED_MESSAGES) (activeWindows ?s')"
    using bounded by (rule messages_bounded_run)
  have len': "length (buffer ?s' key) \<le> MAX_RENDERED_MESSAGES"
    using b' by (rule length_buffer_handleEvent)
  have push: "buffer (showNotification now d ?s') key
            = drop (length (buffer ?s' key @ [overlayMessage now d]) - MAX_RENDERED_MESSAGES)
                (buffer ?s' key @ [overlayMessage now d])"
    if "channelId d = key" for now d
    using buffer_showNotification [of now d ?s'] that by (simp add: pushMessage_drop)
  have frame: "buffer (handleEvent toNumber ev ?s') key = buffer ?s' key
          \<or> liveEntry (handleEvent toNumber ev ?s') key = None"
    if "notified key ev = []" for ev
    using wf' that by (rule handleEvent_buffer_other)
  have exact: "buffer ?s' key
            = drop (length (buffer s key) + length (appended key evs) - MAX_RENDERED_MESSAGES)
                (buffer s key @ appended key evs)
          \<and> length (buffer ?s' key)
              = min (length (buffer s key) + length (appended key evs)) MAX_RENDERED_MESSAGES"
    if "staysOpen toNumber key evs s"
  proof -
    have "length (buffer s key) \<le> MAX_RENDERED_MESSAGES"
      using bounded by (rule length_buffer_handleEvent)
    from buffer_run [OF wf this that]
    have eq: "buffer ?s' key
            = drop (length (buffer s key) + length (appended key evs) - MAX_RENDERED_MESSAGES)
                (buffer s key @ appended key evs)"
      by (simp only: length_append)
    have "length (buffer ?s' key)
              = min (length (buffer s key) + length (appended key evs)) MAX_RENDERED_MESSAGES"
      by (subst eq) (simp add: min_def del: drop_append)
    with eq show ?thesis by (rule conjI)
  qed
  have c3: "\<forall>now d. channelId d = key \<longrightarrow>
          buffer (showNotification now d ?s') key
            = drop (length (buffer ?s' key @ [overlayMessage now d]) - MAX_RENDERED_MESSAGES)
                (buffer ?s' key @ [overlayMessage now d])"
    using push by blast
  have c4: "\<forall>ev. notified key ev = [] \<longrightarrow>
          buffer (handleEvent toNumber ev ?s') key = buffer ?s' key
          \<or> liveEntry (handleEvent toNumber ev ?s') key = None"
    using frame by blast
  have c5: "staysOpen toNumber key evs s \<longrightarrow>
          buffer ?s' key
            = drop (length (buffer s key) + length (appended key evs) - MAX_RENDERED_MESSAGES)
                (buffer s key @ appended key evs)
          \<and> length (buffer ?s' key)
              = min (length (buffer s key) + length (appended key evs)) MAX_RENDERED_MESSAGES"
    using exact by blast
  show ?thesis
    by (intro conjI b' len' c3 c4 c5)
qed

theorem message_buffer_keeps_most_recent_witness:
  "wellFormed fullBuffer
   \<and> staysOpen sampleToNumber ''a'' interleaved fullBuffer
   \<and> length (buffer fullBuffer ''a'') = 200
   \<and> appended ''a'' interleaved
       = [\<lparr>msg_id = ''m'', msg_content = ''hi'', msg_timestamp = 3000\<rparr>,
          \<lparr>msg_id = ''m'', msg_content = ''hi'', msg_timestamp = 4000\<rparr>]
   \<and> buffer (run sampleToNumber interleaved fullBuffer) ''a''
       = replicate 198 \<lparr>msg_id = ''m'', msg_content = ''old'', msg_timestamp = 1000\<rparr>
           @ [\<lparr>msg_id = ''m'', msg_content = ''hi'', msg_timestamp = 3000\<rparr>,
              \<lparr>msg_id = ''m'', msg_content = ''hi'', msg_timestamp = 4000\<rparr>]
   \<and> length (buffer (run sampleToNumber interleaved fullBuffer) ''a'') = 200"
proof -
  have bounded: "list_all (\<lambda>p. length (messages (snd p)) \<le> MAX_RENDERED_MESSAGES)
      (activeWindows fullBuffer)"
    by (simp add: fullBuffer_def twoOverlays_eval MAX_RENDERED_MESSAGES_def)
  have app: "appended ''a'' interleaved
       = [\<lparr>msg_id = ''m'', msg_content = ''hi'', msg_timestamp = 3000\<rparr>,
          \<lparr>msg_id = ''m'', msg_content = ''hi'', msg_timestamp = 4000\<rparr>]"
    by (simp add: appended_def interleaved_def notificationFrom_def overlayMessage_def)
  note conc = message_buffer_keeps_most_recent
    [OF wellFormed_fullBuffer bounded, of sampleToNumber interleaved "''a''"]
  from conc interleaved_staysOpen
  have "buffer (run sampleToNumber interleaved fullBuffer) ''a''
          = drop (length (buffer fullBuffer ''a'') + length (appended ''a'' interleaved)
                   - MAX_RENDERED_MESSAGES)
              (buffer fullBuffer ''a'' @ appended ''a'' interleaved)"
    by blast
  then have "buffer (run sampleToNumber interleaved fullBuffer) ''a''
       = replicate 198 \<lparr>msg_id = ''m'', msg_content = ''old'', msg_timestamp = 1000\<rparr>
           @ [\<lparr>msg_id = ''m'', msg_content = ''hi'', msg_timestamp = 3000\<rparr>,
              \<lparr>msg_id = ''m'', msg_content = ''hi'', msg_timestamp = 4000\<rparr>]"
    by (simp add: fullBuffer_buffer app MAX_RENDERED_MESSAGES_def)
  then show ?thesis
    using wellFormed_fullBuffer interleaved_staysOpen app by (simp add: fullBuffer_buffer)
qed

text \<open>
  A buffer belongs to a registry entry.  A notification that finds no live overlay of
  its conversation makes a new entry, with a buffer of its own, and is no append:
  in \<open>evictionRun\<close> the overlay of conversation a is evicted after three messages,
  and the fourth message for a starts a new buffer.
\<close>

lemma evictionRun_buffer:
  "buffer (run sampleToNumber evictionRun (initialState (1920, 1080) None)) ''a''
     = [\<lparr>msg_id = ''m'', msg_content = ''hi'', msg_timestamp = 9000\<rparr>]
   \<and> appended ''a'' evictionRun
     = [\<lparr>msg_id = ''m'', msg_content = ''hi'', msg_timestamp = 1000\<rparr>,
        \<lparr>msg_id = ''m'', msg_content = ''hi'', msg_timestamp = 2000\<rparr>,
        \<lparr>msg_id = ''m'', msg_content = ''hi'', msg_timestamp = 3000\<rparr>,
        \<lparr>msg_id = ''m'', msg_content = ''hi'', msg_timestamp = 9000\<rparr>]
   \<and> \<not> staysOpen sampleToNumber ''a'' evictionRun (initialState (1920, 1080) None)"
  by (simp add: evictionRun_def appended_def buffer_def eval_defs)

subsection \<open>Windows the layout pass has no hold on\<close>










subsection \<open>The last dragged position\<close>

lemma lastDraggedPos_showNotification [simp]:
  "lastDraggedPos (showNotification now d s) = lastDraggedPos s"
  by (cases "liveEntry s (channelId d)") (simp_all add: showNotification_new showNotification_existing)

lemma lastDraggedPos_onResize [simp]:
  "lastDraggedPos (onResize toNumber payload s) = lastDraggedPos s"
  using onResize_cases [of toNumber payload s] by auto








subsection \<open>The stored heights\<close>

text \<open>
  Claim C10, as amended.  \<open>normalizeRequestedHeight\<close> raises exactly when its input
  is not a number and the conversion \<open>Number\<close> raises for it; for a number it never
  raises.  Whenever it returns, the result is an integer between \<open>WINDOW_MIN_HEIGHT\<close>
  and \<open>WINDOW_MAX_HEIGHT\<close>.  With \<open>n\<close> the number the input stands for (the input
  itself, or what \<open>Number\<close> makes of it): the result is \<open>WINDOW_MIN_HEIGHT\<close> when
  \<open>n\<close> is \<open>NaN\<close> or infinite or at most \<open>WINDOW_MIN_HEIGHT\<close>, it is \<open>WINDOW_MAX_HEIGHT\<close>
  when \<open>n\<close> is at least \<open>WINDOW_MAX_HEIGHT\<close>, and in between it is the ceiling of
  \<open>n\<close>, the least integer that is not below \<open>n\<close>.  When the normalization raises,
  the resize handler catches the error and leaves the state as it is.  So, whatever
  events have been handled since the module was loaded, and whatever heights the
  resize requests among them carry, every stored height is an integer between
  \<open>WINDOW_MIN_HEIGHT\<close> and \<open>WINDOW_MAX_HEIGHT\<close>.
\<close>

theorem normalizeRequestedHeight_clamps_or_raises:
  "(\<forall>e. normalizeRequestedHeight toNumber h = Inl e \<longleftrightarrow> (\<exists>v. h = JOther v \<and> toNumber v = Inl e))
   \<and> (\<forall>x. \<exists>k. normalizeRequestedHeight toNumber (JNumber x) = Inr k)
   \<and> (\<forall>k. normalizeRequestedHeight toNumber h = Inr k \<longrightarrow>
         WINDOW_MIN_HEIGHT \<le> k \<and> k \<le> WINDOW_MAX_HEIGHT)
   \<and> (\<forall>n. asNumber toNumber h = Inr n \<and> \<not> isFinite n \<longrightarrow>
         normalizeRequestedHeight toNumber h = Inr WINDOW_MIN_HEIGHT)
   \<and> (\<forall>r. asNumber toNumber h = Inr (Finite r) \<longrightarrow>
         (\<exists>k. normalizeRequestedHeight toNumber h = Inr k
            \<and> (r \<le> real_of_int WINDOW_MIN_HEIGHT \<longrightarrow> k = WINDOW_MIN_HEIGHT)
            \<and> (real_of_int WINDOW_MIN_HEIGHT \<le> r \<and> r \<le> real_of_int WINDOW_MAX_HEIGHT \<longrightarrow>
                 k = \<lceil>r\<rceil> \<and> r \<le> real_of_int k \<and> real_of_int k < r + 1)
            \<and> (real_of_int WINDOW_MAX_HEIGHT \<le> r \<longrightarrow> k = WINDOW_MAX_HEIGHT)))
   \<and> (\<forall>e key s. normalizeRequestedHeight toNumber h = Inl e \<longrightarrow>
         onResize toNumber (Some \<lparr>payload_id = key, payload_height = h\<rparr>) s = s)
   \<and> (\<forall>evs workArea persisted.
         heightsInRange (run toNumber evs (initialState workArea persisted)))"
proof -
  have raises: "normalizeRequestedHeight toNumber h = Inl e \<longleftrightarrow> (\<exists>v. h = JOther v \<and> toNumber v = Inl e)"
    for e
    by (cases h) (simp_all add: normalizeRequestedHeight_raises asNumber_simps)
  have numbers: "\<exists>k. normalizeRequestedHeight toNumber (JNumber x) = Inr k" for x
    by (cases x) (simp_all add: normalizeRequestedHeight_def asNumber_simps)
  have range: "WINDOW_MIN_HEIGHT \<le> k \<and> k \<le> WINDOW_MAX_HEIGHT"
    if "normalizeRequestedHeight toNumber h = Inr k" for k
    using that by (rule normalizeRequestedHeight_range)
  have nonfinite: "normalizeRequestedHeight toNumber h = Inr WINDOW_MIN_HEIGHT"
    if "asNumber toNumber h = Inr n" "\<not> isFinite n" for n
    using that by (rule normalizeRequestedHeight_not_finite)
  have finite: "\<exists>k. normalizeRequestedHeight toNumber h = Inr k
            \<and> (r \<le> real_of_int WINDOW_MIN_HEIGHT \<longrightarrow> k = WINDOW_MIN_HEIGHT)
            \<and> (real_of_int WINDOW_MIN_HEIGHT \<le> r \<and> r \<le> real_of_int WINDOW_MAX_HEIGHT \<longrightarrow>
                 k = \<lceil>r\<rceil> \<and> r \<le> real_of_int k \<and> real_of_int k < r + 1)
            \<and> (real_of_int WINDOW_MAX_HEIGHT \<le> r \<longrightarrow> k = WINDOW_MAX_HEIGHT)"
    if n: "asNumber toNumber h = Inr (Finite r)" for r
  proof -
    let ?k = "clamp \<lceil>r\<rceil> WINDOW_MIN_HEIGHT WINDOW_MAX_HEIGHT"
    have "normalizeRequestedHeight toNumber h = Inr ?k"
      using n by (rule normalizeRequestedHeight_finite)
    moreover have "?k = WINDOW_MIN_HEIGHT" if "r \<le> real_of_int WINDOW_MIN_HEIGHT"
      using that by (rule clamp_ceiling_low)
    moreover have "?k = WINDOW_MAX_HEIGHT" if "real_of_int WINDOW_MAX_HEIGHT \<le> r"
      using that by (rule clamp_ceiling_high)
    moreover have "?k = \<lceil>r\<rceil> \<and> r \<le> real_of_int ?k \<and> real_of_int ?k < r + 1"
      if "real_of_int WINDOW_MIN_HEIGHT \<le> r \<and> r \<le> real_of_int WINDOW_MAX_HEIGHT"
    proof -
      have "?k = \<lceil>r\<rceil>"
        using that by (simp add: clamp_ceiling_between)
      moreover have "r \<le> real_of_int \<lceil>r\<rceil>" "real_of_int \<lceil>r\<rceil> < r + 1"
        by linarith+
      ultimately show ?thesis by simp
    qed
    ultimately show ?thesis by blast
  qed
  have caught: "onResize toNumber (Some \<lparr>payload_id = key, payload_height = h\<rparr>) s = s"
    if "normalizeRequestedHeight toNumber h = Inl e" for e key s
    using that by (intro onResize_raises [of toNumber _ e]) simp
  have stored: "heightsInRange (run toNumber evs (initialState workArea persisted))"
    for evs workArea persisted
    by (rule heightsInRange_run) (rule heightsInRange_initialState)
  have c1: "\<forall>e. normalizeRequestedHeight toNumber h = Inl e
      \<longleftrightarrow> (\<exists>v. h = JOther v \<and> toNumber v = Inl e)"
    using raises by blast
  have c2: "\<forall>x. \<exists>k. normalizeRequestedHeight toNumber (JNumber x) = Inr k"
    using numbers by blast
  have c3: "\<forall>k. normalizeRequestedHeight toNumber h = Inr k \<longrightarrow>
         WINDOW_MIN_HEIGHT \<le> k \<and> k \<le> WINDOW_MAX_HEIGHT"
    using range by blast
  have c4: "\<forall>n. asNumber toNumber h = Inr n \<and> \<not> isFinite n \<longrightarrow>
         normalizeRequestedHeight toNumber h = Inr WINDOW_MIN_HEIGHT"
    using nonfinite by blast
  have c5: "\<forall>r. asNumber toNumber h = Inr (Finite r) \<longrightarrow>
         (\<exists>k. normalizeRequestedHeight toNumber h = Inr k
            \<and> (r \<le> real_of_int WINDOW_MIN_HEIGHT \<longrightarrow> k = WINDOW_MIN_HEIGHT)
            \<and> (real_of_int WINDOW_MIN_HEIGHT \<le> r \<and> r \<le> real_of_int WINDOW_MAX_HEIGHT \<longrightarrow>
                 k = \<lceil>r\<rceil> \<and> r \<le> real_of_int k \<and> real_of_int k < r + 1)
            \<and> (real_of_int WINDOW_MAX_HEIGHT \<le> r \<longrightarrow> k = WINDOW_MAX_HEIGHT))"
    using finite by blast
  have c6: "\<forall>e key s. normalizeRequestedHeight toNumber h = Inl e \<longrightarrow>
         onResize toNumber (Some \<lparr>payload_id = key, payload_height = h\<rparr>) s = s"
    using caught by blast
  have c7: "\<forall>evs workArea persisted.
         heightsInRange (run toNumber evs (initialState workArea persisted))"
    using stored by blast
  show ?thesis
    by (intro conjI c1 c2 c3 c4 c5 c6 c7)
qed

theorem normalizeRequestedHeight_clamps_or_raises_witness:
  "normalizeRequestedHeight sampleToNumber (JOther UndefinedValue) = Inr 160
   \<and> normalizeRequestedHeight sampleToNumber (JOther StringTall) = Inr 160
   \<and> normalizeRequestedHeight sampleToNumber (JNumber NaN) = Inr 160
   \<and> normalizeRequestedHeight sampleToNumber (JNumber PosInfinity) = Inr 160
   \<and> normalizeRequestedHeight sampleToNumber (JNumber NegInfinity) = Inr 160
   \<and> normalizeRequestedHeight sampleToNumber (JNumber (Finite (3001 / 10))) = Inr 301
   \<and> normalizeRequestedHeight sampleToNumber (JNumber (Finite 1000)) = Inr 420
   \<and> normalizeRequestedHeight sampleToNumber (JNumber (Finite (- 5))) = Inr 160
   \<and> map (\<lambda>p. currentHeight (snd p))
       (activeWindows (run sampleToNumber resizeRun (initialState (1920, 1080) None))) = [300]
   \<and> heightsInRange (run sampleToNumber resizeRun (initialState (1920, 1080) None))"
  using normalizeRequestedHeight_clamps_or_raises [of sampleToNumber "JOther UndefinedValue"]
    normalizeRequestedHeight_clamps_or_raises [of sampleToNumber "JOther StringTall"]
    normalizeRequestedHeight_clamps_or_raises [of sampleToNumber "JNumber NaN"]
    normalizeRequestedHeight_clamps_or_raises [of sampleToNumber "JNumber PosInfinity"]
    normalizeRequestedHeight_clamps_or_raises [of sampleToNumber "JNumber NegInfinity"]
    normalizeRequestedHeight_clamps_or_raises [of sampleToNumber "JNumber (Finite (3001 / 10))"]
    normalizeRequestedHeight_clamps_or_raises [of sampleToNumber "JNumber (Finite 1000)"]
    normalizeRequestedHeight_clamps_or_raises [of sampleToNumber "JNumber (Finite (- 5))"]
  by (simp add: normalizeRequestedHeight_def asNumber_simps clamp_def heightsInRange_def
        resizeRun_def onResize_def setSize_def eval_defs)

text \<open>
  The claim as it was stated says that the normalization is total and gives
  \<open>WINDOW_MIN_HEIGHT\<close> for every value that is not a finite number.  For the string
  "300", which is not a number, it gives 300; for the object
  \<open>{ valueOf: 1, toString: 2 }\<close> and for a \<open>Symbol\<close> it raises a \<open>TypeError\<close>.
\<close>

theorem normalizeRequestedHeight_not_total_counterexample:
  "normalizeRequestedHeight sampleToNumber (JOther String300) = Inr 300
   \<and> normalizeRequestedHeight sampleToNumber (JOther ObjectNoPrimitive) = Inl TypeError
   \<and> normalizeRequestedHeight sampleToNumber (JOther SymbolValue) = Inl TypeError
   \<and> WINDOW_MIN_HEIGHT = 160"
  by (simp add: normalizeRequestedHeight_def asNumber_simps clamp_def WINDOW_MIN_HEIGHT_def
        WINDOW_MAX_HEIGHT_def)

end
